theory Spec2Isabelle
  imports Main "HOL-Library.Word" "HOL-Library.AList"
begin

unbundle bit_operations_syntax

section \<open>The doozer client: data model (src/client.go)\<close>

text \<open>
  Tags and flags are Go \<open>int32\<close> values, modelled as 32-bit words so that \<open>c.n++\<close>
  wraps around. A \<open>chan *R\<close> is modelled by its identity, a natural number handed
  out by \<open>make\<close>; the Go value \<open>nil\<close> of a channel or pointer type is \<open>None\<close>.
\<close>

type_synonym int32 = "32 word"
type_synonym int64 = "64 word"
type_synonym chan = nat

text \<open>The flag bits: \<open>Valid = 1 << iota\<close>, then \<open>Done\<close>, \<open>Set\<close>, \<open>Del\<close>.\<close>

definition Valid :: int32 where "Valid = 1"
definition Done :: int32 where "Done = 2"
definition Set_flag :: int32 where "Set_flag = 4"
definition Del :: int32 where "Del = 8"

text \<open>
  The values of type \<open>os.Error\<close> that the client builds or passes on. \<open>Other\<close>
  stands for any error produced by the network, binary or protobuf libraries,
  named by its message; \<open>Error\<close> is the struct \<open>Error{Code, Detail}\<close>.
\<close>

datatype os_error =
    EOF
  | ENOTDIR
  | EISDIR
  | ENOENT
  | ErrNoAddrs
  | ErrBadTag
  | ErrOldRev
  | TooLate
  | Error int32 string
  | Other string

datatype verb = CANCEL | DEL | GET | NOP | REV | SET | WALK | WATCH | STAT | GETDIR

text \<open>
  The request \<open>T\<close> and the response \<open>R\<close>. Their struct declarations are
  generated protobuf code; the fields below are the ones client.go reads and
  writes, every optional field a pointer in Go and an option here.
\<close>

record T =
  T_Verb :: verb
  T_Tag :: "int32 option"
  T_OtherTag :: "int32 option"
  T_Path :: "string option"
  T_Rev :: "int64 option"
  T_Value :: string
  T_Offset :: "int32 option"
  T_Limit :: "int32 option"

record R =
  R_Tag :: "int32 option"
  R_Flags :: "int32 option"
  R_Rev :: "int64 option"
  R_Path :: "string option"
  R_Value :: string
  R_Len :: "int32 option"
  R_ErrCode :: "int32 option"
  R_ErrDetail :: "string option"

record Event =
  Ev_Rev :: int64
  Ev_Path :: string
  Ev_Body :: string
  Ev_Flag :: int32
  Ev_Err :: "os_error option"

text \<open>
  The numeric values of the generated constants \<open>Response_NOTDIR\<close>, ... are
  not part of client.go; they are taken as a parameter. A Go map literal
  with a repeated key does not compile, so the real constants are distinct.
\<close>

record err_codes =
  Response_NOTDIR :: int32
  Response_ISDIR :: int32
  Response_NOENT :: int32
  Response_REV_MISMATCH :: int32
  Response_TOO_LATE :: int32
  Response_REDIRECT :: int32

definition codes_distinct :: "err_codes \<Rightarrow> bool" where
  "codes_distinct k =
     distinct [Response_NOTDIR k, Response_ISDIR k, Response_NOENT k,
               Response_REV_MISMATCH k, Response_TOO_LATE k]"

text \<open>The table \<open>errs\<close> of typed errors.\<close>

definition errs :: "err_codes \<Rightarrow> int32 \<rightharpoonup> os_error" where
  "errs k =
     [Response_NOTDIR k \<mapsto> ENOTDIR,
      Response_ISDIR k \<mapsto> EISDIR,
      Response_NOENT k \<mapsto> ENOENT,
      Response_REV_MISMATCH k \<mapsto> ErrOldRev,
      Response_TOO_LATE k \<mapsto> TooLate]"

text \<open>
  \<open>func (r *R) err() os.Error\<close>: the receiver may be nil; the detail is looked
  at before the table of typed errors.
\<close>

definition R_err :: "err_codes \<Rightarrow> R option \<Rightarrow> os_error option" where
  "R_err k ro =
     (case ro of
        None \<Rightarrow> Some EOF
      | Some r \<Rightarrow>
          (case R_ErrCode r of
             Some c \<Rightarrow>
               (case R_ErrDetail r of
                  Some d \<Rightarrow> Some (Error c d)
                | None \<Rightarrow>
                    (case errs k c of
                       Some e \<Rightarrow> Some e
                     | None \<Rightarrow> Some (Error c [])))
           | None \<Rightarrow> None))"

text \<open>
  The tail of \<open>conn.call\<close>: \<open>r := <-ch\<close> yields the delivered response, or nil
  when the sink was closed without a delivery; then \<open>r.err()\<close> decides.
\<close>

definition call_result :: "err_codes \<Rightarrow> R option \<Rightarrow> os_error + R option" where
  "call_result k ro =
     (case R_err k ro of Some e \<Rightarrow> Inl e | None \<Rightarrow> Inr ro)"

text \<open>Sample values used to run the definitions.\<close>

definition codes0 :: err_codes where
  "codes0 = \<lparr>Response_NOTDIR = 20, Response_ISDIR = 21, Response_NOENT = 22,
             Response_REV_MISMATCH = 5, Response_TOO_LATE = 4, Response_REDIRECT = 3\<rparr>"

definition R0 :: R where
  "R0 = \<lparr>R_Tag = None, R_Flags = None, R_Rev = None, R_Path = None, R_Value = [],
         R_Len = None, R_ErrCode = None, R_ErrDetail = None\<rparr>"

section \<open>The connection\<close>

text \<open>
  \<open>pb.GetInt32\<close>, \<open>pb.GetInt64\<close> and \<open>pb.GetString\<close> read an optional field,
  with the zero value for nil.
\<close>

definition GetInt32 :: "int32 option \<Rightarrow> int32" where
  "GetInt32 p = (case p of None \<Rightarrow> 0 | Some v \<Rightarrow> v)"

definition GetInt64 :: "int64 option \<Rightarrow> int64" where
  "GetInt64 p = (case p of None \<Rightarrow> 0 | Some v \<Rightarrow> v)"

definition GetString :: "string option \<Rightarrow> string" where
  "GetString p = (case p of None \<Rightarrow> [] | Some v \<Rightarrow> v)"

text \<open>
  What the connection does to the outside, in program order: writes and reads
  on the transport \<open>c.c\<close>, operations on sinks, changes of the callback table,
  the log line, and the notification on \<open>c.closed\<close>. \<open>Send ch r\<close> is the
  statement \<open>ch <- r\<close> of the read loop; the sinks are unbuffered, and a read
  loop that waits there for a receiver is not modelled.
\<close>

datatype effect =
    Wrote T
  | WriteFailed T
  | Read_frame R
  | ReadFailed os_error
  | Send chan R
  | Close chan
  | Log int32
  | Register int32 chan
  | Reserve int32
  | Release int32
  | Clear
  | Notify

text \<open>
  The struct \<open>conn\<close>. The fields carry the prefix \<open>c_\<close>. The table \<open>cb\<close> is an
  association list with one pair per key: a key bound to \<open>None\<close> is the nil
  entry left by \<open>cancel\<close>, a key bound to \<open>Some ch\<close> an open sink. The nil map
  stored by \<open>close\<close> is the empty table: a lookup in it finds nothing. Go does
  not allow a store into the nil map; in runs of whole calls none happens,
  since a closed connection has its sticky error set (\<open>torn_down_has_error\<close>
  below). The locks are not modelled: every function below runs as one
  sequential piece, and \<open>c_trace\<close> records its effects in the order the code
  performs them. \<open>c_fresh\<close> is the identity of the next channel made by \<open>make\<close>.
\<close>

record conn =
  c_addr :: string
  c_err :: "os_error option"
  c_n :: int32
  c_cb :: "(int32 \<times> chan option) list"
  c_redirectAddr :: string
  c_redirected :: bool
  c_closed :: bool
  c_trace :: "effect list"
  c_fresh :: chan

definition emit :: "effect list \<Rightarrow> conn \<Rightarrow> conn" where
  "emit es c = c\<lparr>c_trace := c_trace c @ es\<rparr>"

text \<open>
  What the environment decides about one \<open>writeT\<close>: \<open>pb.Marshal\<close> fails,
  \<open>binary.Write\<close> of the length fails, a \<open>c.c.Write\<close> of the payload loop
  fails, or the whole frame is written (the partial writes of the payload
  loop are not told apart). The errors of those libraries are \<open>Other\<close> values.
\<close>

datatype write_outcome =
    MarshalFails string
  | PrefixFails string
  | BodyFails string
  | Written

definition writeT :: "conn \<Rightarrow> T \<Rightarrow> write_outcome \<Rightarrow> conn \<times> os_error option" where
  "writeT c t w =
     (case c_err c of
        Some e \<Rightarrow> (c, Some e)
      | None \<Rightarrow>
          (case w of
             MarshalFails m \<Rightarrow> (c, Some (Other m))
           | PrefixFails m \<Rightarrow>
               (emit [WriteFailed t] (c\<lparr>c_err := Some (Other m)\<rparr>), Some (Other m))
           | BodyFails m \<Rightarrow>
               (emit [WriteFailed t] (c\<lparr>c_err := Some (Other m)\<rparr>), Some (Other m))
           | Written \<Rightarrow> (emit [Wrote t] c, None)))"

text \<open>
  The loop \<open>for _, ok := c.cb[c.n]; ok; _, ok = c.cb[c.n] { c.n++ }\<close> of
  \<open>send\<close>. It does not end when every tag has an entry, so it is a partial
  function: \<open>None\<close> is the loop that never ends.
\<close>

partial_function (option) unused_tag :: "(int32 \<times> chan option) list \<Rightarrow> int32 \<Rightarrow> int32 option" where
  "unused_tag tbl i =
     (if map_of tbl i \<noteq> None then unused_tag tbl (i + 1) else Some i)"

text \<open>
  The first locked section of \<open>send\<close>, once the loop has found \<open>tag\<close>: the
  new channel is put in the table under \<open>tag\<close>, and \<open>c.n\<close> stays at \<open>tag\<close>.
\<close>

definition registered :: "conn \<Rightarrow> int32 \<Rightarrow> conn" where
  "registered c tag =
     emit [Register tag (c_fresh c)]
       (c\<lparr>c_fresh := Suc (c_fresh c), c_n := tag,
          c_cb := AList.update tag (Some (c_fresh c)) (c_cb c)\<rparr>)"

text \<open>
  The two other changes of one entry, each a locked section of its own:
  \<open>c.cb[tag] = nil, false\<close> removes the entry (in \<open>send\<close> after a failed write,
  in \<open>readResponses\<close> for a Done frame, at the end of \<open>cancel\<close>), and
  \<open>c.cb[tag] = nil\<close> of \<open>cancel\<close> stores the nil entry.
\<close>

definition released :: "conn \<Rightarrow> int32 \<Rightarrow> conn" where
  "released c tag = emit [Release tag] (c\<lparr>c_cb := AList.delete tag (c_cb c)\<rparr>)"

definition reserved :: "conn \<Rightarrow> int32 \<Rightarrow> conn" where
  "reserved c tag = emit [Reserve tag] (c\<lparr>c_cb := AList.update tag None (c_cb c)\<rparr>)"

text \<open>
  \<open>send\<close> returns the connection, the request with its tag set (the code
  writes \<open>t.Tag\<close> through the pointer) and the sink or the error.
\<close>

definition send :: "conn \<Rightarrow> T \<Rightarrow> write_outcome \<Rightarrow> (conn \<times> T \<times> (os_error + chan)) option" where
  "send c t w =
     (case c_err c of
        Some e \<Rightarrow> Some (c, t, Inl e)
      | None \<Rightarrow>
          (case unused_tag (c_cb c) (c_n c) of
             None \<Rightarrow> None
           | Some tag \<Rightarrow>
               (let ch = c_fresh c;
                    c1 = registered c tag;
                    t1 = t\<lparr>T_Tag := Some tag\<rparr>;
                    (c2, e) = writeT c1 t1 w
                in (case e of
                      Some e' \<Rightarrow> Some (released c2 tag, t1, Inl e')
                    | None \<Rightarrow> Some (c2, t1, Inr ch)))))"

text \<open>
  \<open>conn.close\<close>: close every open sink of the table (in the order of the
  table), drop the table, notify on \<open>c.closed\<close>.
\<close>

definition open_sinks :: "(int32 \<times> chan option) list \<Rightarrow> chan list" where
  "open_sinks tbl = List.map_filter snd tbl"

definition conn_close :: "conn \<Rightarrow> conn" where
  "conn_close c =
     emit (map Close (open_sinks (c_cb c)) @ [Clear, Notify])
       (c\<lparr>c_cb := [], c_closed := True\<rparr>)"

text \<open>
  One turn of the loop of \<open>readResponses\<close> after \<open>readR\<close> returned the frame
  \<open>r\<close>: first the part under the table lock, \<open>rr_table\<close>, which returns the
  entry it found; then the part after the unlock, \<open>rr_deliver\<close>.
\<close>

definition rr_redirect :: "err_codes \<Rightarrow> conn \<Rightarrow> R \<Rightarrow> conn" where
  "rr_redirect k c r =
     (if R_ErrCode r \<noteq> None \<and> the (R_ErrCode r) = Response_REDIRECT k
      then c\<lparr>c_redirectAddr := GetString (R_ErrDetail r), c_redirected := True\<rparr>
      else c)"

definition rr_table :: "conn \<Rightarrow> R \<Rightarrow> conn \<times> chan option option" where
  "rr_table c r =
     (let tag = GetInt32 (R_Tag r); flags = GetInt32 (R_Flags r);
          entry = map_of (c_cb c) tag
      in if entry = Some None then (c, entry)
         else if flags AND Done \<noteq> 0
              then (released c tag, entry)
              else (c, entry))"

definition rr_deliver :: "conn \<Rightarrow> R \<Rightarrow> chan option option \<Rightarrow> conn" where
  "rr_deliver c r entry =
     (let tag = GetInt32 (R_Tag r); flags = GetInt32 (R_Flags r)
      in case entry of
           Some None \<Rightarrow> c
         | None \<Rightarrow> emit [Log tag] c
         | Some (Some ch) \<Rightarrow>
             emit ((if flags AND Valid \<noteq> 0 then [Send ch r] else []) @
                   (if flags AND Done \<noteq> 0 then [Close ch] else [])) c)"

definition rr_frame :: "err_codes \<Rightarrow> conn \<Rightarrow> R \<Rightarrow> conn" where
  "rr_frame k c r =
     (let c0 = rr_redirect k (emit [Read_frame r] c) r;
          (c1, entry) = rr_table c0 r
      in rr_deliver c1 r entry)"

text \<open>
  \<open>readResponses\<close> on the results of its successive \<open>readR\<close> calls. On an
  error it records the error unless one is set, returns, and the deferred
  \<open>close\<close> runs; the rest of the input is never read. With no input left the
  loop is waiting in \<open>readR\<close>.
\<close>

fun readResponses :: "err_codes \<Rightarrow> conn \<Rightarrow> (os_error + R) list \<Rightarrow> conn" where
  "readResponses k c [] = c"
| "readResponses k c (Inl e # rest) =
     conn_close (emit [ReadFailed e]
       (if c_err c = None then c\<lparr>c_err := Some e\<rparr> else c))"
| "readResponses k c (Inr r # rest) = readResponses k (rr_frame k c r) rest"

text \<open>
  The read loop is one goroutine started by \<open>dial\<close>; once it has returned
  (\<open>c_closed\<close>) nothing reads the transport any more.
\<close>

definition reader :: "err_codes \<Rightarrow> conn \<Rightarrow> (os_error + R) list \<Rightarrow> conn" where
  "reader k c inbound = (if c_closed c then c else readResponses k c inbound)"

text \<open>
  \<open>r := <-ch\<close>: the first thing that happens on the sink decides. A send gives
  its value, a close gives nil; \<open>None\<close> is a receiver still waiting.
\<close>

fun recv :: "chan \<Rightarrow> effect list \<Rightarrow> R option option" where
  "recv ch [] = None"
| "recv ch (Send c r # es) = (if c = ch then Some (Some r) else recv ch es)"
| "recv ch (Close c # es) = (if c = ch then Some None else recv ch es)"
| "recv ch (e # es) = recv ch es"

text \<open>
  \<open>conn.call\<close>. While the caller waits on its sink the read loop handles the
  frames \<open>inbound\<close>; the caller sees what the loop did to the sink since
  \<open>send\<close> returned. \<open>None\<close> is a call that does not return.
\<close>

definition conn_call ::
  "err_codes \<Rightarrow> conn \<Rightarrow> T \<Rightarrow> write_outcome \<Rightarrow> (os_error + R) list
     \<Rightarrow> (conn \<times> (os_error + R option)) option" where
  "conn_call k c t w inbound =
     (case send c t w of
        None \<Rightarrow> None
      | Some (c1, t1, Inl e) \<Rightarrow> Some (c1, Inl e)
      | Some (c1, t1, Inr ch) \<Rightarrow>
          (let c2 = reader k c1 inbound
           in case recv ch (drop (length (c_trace c1)) (c_trace c2)) of
                None \<Rightarrow> None
              | Some ro \<Rightarrow> Some (c2, call_result k ro)))"

text \<open>
  \<open>conn.events\<close> and the goroutine it starts. \<open>Watch\<close> keeps the sink and the
  tag; its output channel \<open>C\<close> is described by \<open>events_forward\<close>: the
  goroutine ranges over the sink, publishes one \<open>Event\<close> per value received,
  and closes the output when the range ends, that is when the sink is closed.
\<close>

record Watch =
  W_cb :: chan
  W_tag :: int32

definition events :: "conn \<Rightarrow> T \<Rightarrow> write_outcome \<Rightarrow> (conn \<times> (os_error + Watch)) option" where
  "events c t w =
     (case send c t w of
        None \<Rightarrow> None
      | Some (c1, t1, Inl e) \<Rightarrow> Some (c1, Inl e)
      | Some (c1, t1, Inr ch) \<Rightarrow> Some (c1, Inr \<lparr>W_cb = ch, W_tag = the (T_Tag t1)\<rparr>))"

definition to_event :: "err_codes \<Rightarrow> R \<Rightarrow> Event" where
  "to_event k r =
     (case R_err k (Some r) of
        Some e \<Rightarrow> \<lparr>Ev_Rev = 0, Ev_Path = [], Ev_Body = [], Ev_Flag = 0, Ev_Err = Some e\<rparr>
      | None \<Rightarrow> \<lparr>Ev_Rev = GetInt64 (R_Rev r), Ev_Path = GetString (R_Path r),
                 Ev_Body = R_Value r, Ev_Flag = GetInt32 (R_Flags r), Ev_Err = None\<rparr>)"

text \<open>
  What a sink carries according to a trace: the values sent on it before it
  is closed, and whether it is closed.
\<close>

fun sink_log :: "chan \<Rightarrow> effect list \<Rightarrow> R list \<times> bool" where
  "sink_log ch [] = ([], False)"
| "sink_log ch (Send c r # es) =
     (if c = ch then (r # fst (sink_log ch es), snd (sink_log ch es)) else sink_log ch es)"
| "sink_log ch (Close c # es) = (if c = ch then ([], True) else sink_log ch es)"
| "sink_log ch (e # es) = sink_log ch es"

definition events_forward :: "err_codes \<Rightarrow> R list \<times> bool \<Rightarrow> Event list \<times> bool" where
  "events_forward k s = (map (to_event k) (fst s), snd s)"

text \<open>
  \<open>conn.cancel\<close>. Its only caller, \<open>Watch.Cancel\<close>, passes the sink that \<open>send\<close>
  returned, so the argument \<open>cbp\<close> is a channel, never nil.
\<close>

definition T_new :: "verb \<Rightarrow> T" where
  "T_new v = \<lparr>T_Verb = v, T_Tag = None, T_OtherTag = None, T_Path = None,
              T_Rev = None, T_Value = [], T_Offset = None, T_Limit = None\<rparr>"

definition cancel_reserve :: "conn \<Rightarrow> int32 \<Rightarrow> chan \<Rightarrow> os_error + conn" where
  "cancel_reserve c tag cbp =
     (case map_of (c_cb c) tag of
        None \<Rightarrow> Inl ErrBadTag
      | Some ch \<Rightarrow> if ch \<noteq> Some cbp then Inl ErrBadTag else Inr (reserved c tag))"

definition cancel ::
  "err_codes \<Rightarrow> conn \<Rightarrow> int32 \<Rightarrow> chan \<Rightarrow> write_outcome \<Rightarrow> (os_error + R) list
     \<Rightarrow> (conn \<times> os_error option) option" where
  "cancel k c tag cbp w inbound =
     (case cancel_reserve c tag cbp of
        Inl e \<Rightarrow> Some (c, Some e)
      | Inr c1 \<Rightarrow>
          (case conn_call k c1 ((T_new CANCEL)\<lparr>T_OtherTag := Some tag\<rparr>) w inbound of
             None \<Rightarrow> None
           | Some (c2, Inl e) \<Rightarrow> Some (c2, Some e)
           | Some (c2, Inr r) \<Rightarrow> Some (emit [Close cbp] (released c2 tag), None)))"

definition Watch_Cancel ::
  "err_codes \<Rightarrow> conn \<Rightarrow> Watch \<Rightarrow> write_outcome \<Rightarrow> (os_error + R) list
     \<Rightarrow> (conn \<times> os_error option) option" where
  "Watch_Cancel k c wt w inbound = cancel k c (W_tag wt) (W_cb wt) w inbound"

section \<open>The cluster session\<close>

text \<open>
  \<open>Client.dial\<close>: \<open>net.Dial\<close> is the environment, \<open>None\<close> for a connection made.
  A fresh \<open>conn\<close> has the zero value in every field but \<open>addr\<close> and an empty table.
\<close>

definition new_conn :: "string \<Rightarrow> conn" where
  "new_conn a = \<lparr>c_addr = a, c_err = None, c_n = 0, c_cb = [], c_redirectAddr = [],
                 c_redirected = False, c_closed = False, c_trace = [], c_fresh = 0\<rparr>"

definition dial :: "(string \<Rightarrow> os_error option) \<Rightarrow> string \<Rightarrow> os_error + conn" where
  "dial net a = (case net a of Some e \<Rightarrow> Inl e | None \<Rightarrow> Inr (new_conn a))"

text \<open>
  The pool \<open>map[string]bool\<close> is an association list with one pair per
  address. \<open>for addr = range a { break }\<close> takes some address of the pool;
  which one is the parameter \<open>pick\<close>, an index into the pool.
\<close>

type_synonym pool = "(string \<times> bool) list"

function connect ::
  "(string \<Rightarrow> os_error option) \<Rightarrow> (pool \<Rightarrow> nat) \<Rightarrow> pool \<Rightarrow> pool \<times> conn option" where
  "connect net pick a =
     (if length a > 0
      then (case dial net (fst (a ! (pick a mod length a))) of
              Inr c \<Rightarrow> (a, Some c)
            | Inl e \<Rightarrow> connect net pick (AList.delete (fst (a ! (pick a mod length a))) a))
      else (a, None))"
  by pat_completeness auto
termination
proof (relation "measure (\<lambda>(net, pick, a). length a)")
  show "wf (measure (\<lambda>(net, pick, a). length a))" by simp
next
  fix net :: "string \<Rightarrow> os_error option" and pick :: "pool \<Rightarrow> nat" and a :: pool and e
  assume pos: "0 < length a"
  let ?x = "a ! (pick a mod length a)"
  have mem: "?x \<in> set a" using pos by simp
  have "length (filter (\<lambda>(k', _). fst ?x \<noteq> k') a) < length a"
    by (rule length_filter_less [OF mem]) (simp add: case_prod_beta)
  then show "((net, pick, AList.delete (fst ?x) a), (net, pick, a))
               \<in> measure (\<lambda>(net, pick, a). length a)"
    by (simp add: AList.delete_eq)
qed

declare connect.simps [simp del]

text \<open>
  \<open>Client.run\<close>: \<open>Stopped\<close> is the loop that has returned, with \<open>cl.c\<close> closed by
  \<open>connect\<close>. While it runs, \<open>run_step\<close> is one turn of the \<open>select\<close>. After it
  has returned nobody receives from \<open>cl.a\<close>, \<open>cl.r\<close> or sends on \<open>cl.Len\<close>, so
  those requests wait for ever (\<open>Blocked\<close>); a receive from the closed \<open>cl.c\<close>
  yields nil (\<open>NoConn\<close>).
\<close>

datatype session = Running pool conn | Stopped

datatype request = GetLen | GetConn | Add string | Rm string | ConnClosed

datatype reply = Len nat | Conn conn | NoConn | Ack | Blocked

definition run_connect ::
  "(string \<Rightarrow> os_error option) \<Rightarrow> (pool \<Rightarrow> nat) \<Rightarrow> pool \<Rightarrow> session" where
  "run_connect net pick a =
     (case connect net pick a of
        (a', Some c) \<Rightarrow> Running a' c
      | (a', None) \<Rightarrow> Stopped)"

fun run_step ::
  "(string \<Rightarrow> os_error option) \<Rightarrow> (pool \<Rightarrow> nat) \<Rightarrow> session \<Rightarrow> request \<Rightarrow> session \<times> reply" where
  "run_step net pick (Running a c) GetLen = (Running a c, Len (length a))"
| "run_step net pick (Running a c) GetConn = (Running a c, Conn c)"
| "run_step net pick (Running a c) (Add x) = (Running (AList.update x True a) c, Ack)"
| "run_step net pick (Running a c) (Rm x) = (Running (AList.delete x a) c, Ack)"
| "run_step net pick (Running a c) ConnClosed =
     (run_connect net pick (AList.delete (c_addr c) a), Ack)"
| "run_step net pick Stopped GetConn = (Stopped, NoConn)"
| "run_step net pick Stopped rq = (Stopped, Blocked)"

definition New :: "(string \<Rightarrow> os_error option) \<Rightarrow> (pool \<Rightarrow> nat) \<Rightarrow> string \<Rightarrow> session" where
  "New net pick a = run_connect net pick [(a, True)]"

text \<open>A run of the session over a list of requests; the replies are dropped.\<close>

fun run_steps ::
  "(string \<Rightarrow> os_error option) \<Rightarrow> (pool \<Rightarrow> nat) \<Rightarrow> session \<Rightarrow> request list \<Rightarrow> session" where
  "run_steps net pick s [] = s"
| "run_steps net pick s (rq # rqs) = run_steps net pick (fst (run_step net pick s rq)) rqs"

text \<open>\<open>c := <-cl.c\<close>, as every caller does it.\<close>

definition fetch ::
  "(string \<Rightarrow> os_error option) \<Rightarrow> (pool \<Rightarrow> nat) \<Rightarrow> session \<Rightarrow> conn option" where
  "fetch net pick s =
     (case snd (run_step net pick s GetConn) of Conn c \<Rightarrow> Some c | _ \<Rightarrow> None)"

text \<open>
  The calls of \<open>Client\<close>. Each starts with \<open>c := <-cl.c\<close>; the argument
  \<open>fetched\<close> is the value received, nil once \<open>cl.c\<close> is closed.
\<close>

definition Client_call ::
  "err_codes \<Rightarrow> conn option \<Rightarrow> T \<Rightarrow> write_outcome \<Rightarrow> (os_error + R) list
     \<Rightarrow> (os_error + R option) option" where
  "Client_call k fetched t w inbound =
     (case fetched of
        None \<Rightarrow> Some (Inl ErrNoAddrs)
      | Some c \<Rightarrow> map_option snd (conn_call k c t w inbound))"

definition Client_Watch ::
  "conn option \<Rightarrow> string \<Rightarrow> int64 \<Rightarrow> write_outcome \<Rightarrow> (os_error + Watch) option" where
  "Client_Watch fetched glob from w =
     (case fetched of
        None \<Rightarrow> Some (Inl ErrNoAddrs)
      | Some c \<Rightarrow>
          map_option snd
            (events c ((T_new WATCH)\<lparr>T_Path := Some glob, T_Rev := Some from\<rparr>) w))"

definition Client_Getdir ::
  "conn option \<Rightarrow> string \<Rightarrow> int32 \<Rightarrow> int32 \<Rightarrow> int64 option \<Rightarrow> write_outcome
     \<Rightarrow> (os_error + Watch) option" where
  "Client_Getdir fetched path offset limit rv w =
     (case fetched of
        None \<Rightarrow> Some (Inl ErrNoAddrs)
      | Some c \<Rightarrow>
          map_option snd
            (events c ((T_new GETDIR)\<lparr>T_Rev := rv, T_Path := Some path,
                                       T_Offset := Some offset, T_Limit := Some limit\<rparr>) w))"

definition Client_Walk ::
  "conn option \<Rightarrow> string \<Rightarrow> int64 option \<Rightarrow> int32 option \<Rightarrow> int32 option \<Rightarrow> write_outcome
     \<Rightarrow> (os_error + Watch) option" where
  "Client_Walk fetched glob rv offset limit w =
     (case fetched of
        None \<Rightarrow> Some (Inl ErrNoAddrs)
      | Some c \<Rightarrow>
          map_option snd
            (events c ((T_new WALK)\<lparr>T_Path := Some glob, T_Rev := rv,
                                     T_Offset := offset, T_Limit := limit\<rparr>) w))"

text \<open>
  \<open>Client.retry\<close>. Every turn of its loop meets what the environment gives
  it: the value received from \<open>cl.c\<close>, the outcome of the write, the frames
  the read loop handles during the call. The loop runs over a list of such
  turns; \<open>None\<close> is a loop that has not returned when the list ends, or a call
  that does not return.
\<close>

record attempt =
  a_conn :: "conn option"
  a_write :: write_outcome
  a_inbound :: "(os_error + R) list"

fun retry :: "err_codes \<Rightarrow> T \<Rightarrow> attempt list \<Rightarrow> (os_error + R option) option" where
  "retry k t [] = None"
| "retry k t (x # xs) =
     (case a_conn x of
        None \<Rightarrow> Some (Inl ErrNoAddrs)
      | Some c \<Rightarrow>
          (case conn_call k c t (a_write x) (a_inbound x) of
             None \<Rightarrow> None
           | Some (c', res) \<Rightarrow> if c_err c' \<noteq> None then retry k t xs else Some res))"

text \<open>
  More sample values: a connection with one open sink under tag 0, as a
  first \<open>send\<close> on a fresh connection leaves it, and frames answering tag 0.
\<close>

definition conn1 :: conn where
  "conn1 = fst (the (send (new_conn ''10.0.0.1:8046'') (T_new GET) Written))"

definition frame :: "int32 \<Rightarrow> int32 \<Rightarrow> R" where
  "frame tag flags = R0\<lparr>R_Tag := Some tag, R_Flags := Some flags\<rparr>"

section \<open>Interleavings\<close>

text \<open>
  Goroutines that share one \<open>conn\<close> interleave at the granularity of its
  locked sections. A \<open>step\<close> is one such piece of the code above: the first
  locked section of \<open>send\<close> (\<open>Alloc\<close>), a \<open>writeT\<close> under the write lock, the
  removal of an entry (\<open>Free\<close>: \<open>send\<close> after a failed write, the end of
  \<open>cancel\<close>), one turn of the read loop on a frame, the end of the read loop
  on a read error, the first locked section of \<open>cancel\<close>, and the \<open>close(ch)\<close>
  of \<open>cancel\<close>. \<open>steps\<close> runs a schedule; \<open>None\<close> is a schedule in which the tag
  loop of an \<open>Alloc\<close> does not end.
\<close>

datatype step =
    Alloc
  | WriteT T write_outcome
  | Free int32
  | Frame R
  | ReadErr os_error
  | CancelReserve int32 chan
  | CloseSink chan

fun step_conn :: "err_codes \<Rightarrow> conn \<Rightarrow> step \<Rightarrow> conn option" where
  "step_conn k c Alloc = map_option (registered c) (unused_tag (c_cb c) (c_n c))"
| "step_conn k c (WriteT t w) = Some (fst (writeT c t w))"
| "step_conn k c (Free tag) = Some (released c tag)"
| "step_conn k c (Frame r) = Some (reader k c [Inr r])"
| "step_conn k c (ReadErr e) = Some (reader k c [Inl e])"
| "step_conn k c (CancelReserve tag cbp) =
     Some (case cancel_reserve c tag cbp of Inl e \<Rightarrow> c | Inr c1 \<Rightarrow> c1)"
| "step_conn k c (CloseSink ch) = Some (emit [Close ch] c)"

fun steps :: "err_codes \<Rightarrow> conn \<Rightarrow> step list \<Rightarrow> conn option" where
  "steps k c [] = Some c"
| "steps k c (s # ss) =
     (case step_conn k c s of None \<Rightarrow> None | Some c' \<Rightarrow> steps k c' ss)"

text \<open>
  The table is well formed: one entry per tag, no sink under two tags, and
  every sink in it was made by an earlier \<open>make\<close>.
\<close>

definition table_ok :: "conn \<Rightarrow> bool" where
  "table_ok c \<longleftrightarrow>
     distinct (map fst (c_cb c)) \<and> distinct (open_sinks (c_cb c))
     \<and> (\<forall>ch \<in> set (open_sinks (c_cb c)). ch < c_fresh c)"

text \<open>The effects that \<open>c'\<close> has beyond \<open>c\<close>.\<close>

definition new_effects :: "conn \<Rightarrow> conn \<Rightarrow> effect list" where
  "new_effects c c' = drop (length (c_trace c)) (c_trace c')"

text \<open>The effects on the transport: attempts to write a frame, and reads.\<close>

fun is_write :: "effect \<Rightarrow> bool" where
  "is_write (Wrote t) = True"
| "is_write (WriteFailed t) = True"
| "is_write e = False"

fun is_read :: "effect \<Rightarrow> bool" where
  "is_read (Read_frame r) = True"
| "is_read (ReadFailed e) = True"
| "is_read e = False"

text \<open>
  A sample connection with a sticky error: after the first request of
  \<open>conn1\<close>, the write of a second request fails.
\<close>

definition conn_werr :: conn where
  "conn_werr = fst (the (send conn1 (T_new GET) (BodyFails ''reset'')))"

text \<open>
  A sample streaming call: \<open>events\<close> on a fresh connection. It gets sink 0
  under tag 0. \<open>err_frame\<close> is a frame that bears an error code.
\<close>

definition watch_req :: T where
  "watch_req = (T_new WATCH)\<lparr>T_Path := Some ''/ctl/**'', T_Rev := Some 0\<rparr>"

definition conn_watch :: conn where
  "conn_watch = fst (the (events (new_conn ''10.0.0.1:8046'') watch_req Written))"

definition err_frame :: "int32 \<Rightarrow> int32 \<Rightarrow> int32 \<Rightarrow> R" where
  "err_frame tag flags code = (frame tag flags)\<lparr>R_ErrCode := Some code\<rparr>"

text \<open>
  Whole calls on one connection, one after the other: a \<open>send\<close> (the start of
  a \<open>call\<close> or of \<open>events\<close>), the read loop handling some input, and a \<open>cancel\<close>.
  \<open>None\<close> is a call that does not return.
\<close>

datatype call_op =
    DoSend T write_outcome
  | DoRead "(os_error + R) list"
  | DoCancel int32 chan write_outcome "(os_error + R) list"

fun do_op :: "err_codes \<Rightarrow> conn \<Rightarrow> call_op \<Rightarrow> conn option" where
  "do_op k c (DoSend t w) = map_option fst (send c t w)"
| "do_op k c (DoRead inbound) = Some (reader k c inbound)"
| "do_op k c (DoCancel tag cbp w inbound) = map_option fst (cancel k c tag cbp w inbound)"

fun do_ops :: "err_codes \<Rightarrow> conn \<Rightarrow> call_op list \<Rightarrow> conn option" where
  "do_ops k c [] = Some c"
| "do_ops k c (x # xs) = (case do_op k c x of None \<Rightarrow> None | Some c' \<Rightarrow> do_ops k c' xs)"

text \<open>
  A tag is retired when it holds the nil entry, or when the connection has
  been torn down with its sticky error set.
\<close>

definition retired :: "int32 \<Rightarrow> conn \<Rightarrow> bool" where
  "retired tag c \<longleftrightarrow>
     map_of (c_cb c) tag = Some None \<or> (c_closed c \<and> c_cb c = [] \<and> c_err c \<noteq> None)"

text \<open>
  An attempt of \<open>retry\<close> is lost when its call returns on a connection that
  has a sticky error by then: the test \<open>c.err != nil\<close> after \<open>c.call(t)\<close>.
\<close>

definition lost :: "err_codes \<Rightarrow> T \<Rightarrow> attempt \<Rightarrow> bool" where
  "lost k t x =
     (case a_conn x of
        None \<Rightarrow> False
      | Some c \<Rightarrow>
          (case conn_call k c t (a_write x) (a_inbound x) of
             None \<Rightarrow> False
           | Some (c', res) \<Rightarrow> c_err c' \<noteq> None))"

text \<open>Sample environments: a network on which every dial is refused.\<close>

definition net_down :: "string \<Rightarrow> os_error option" where
  "net_down a = Some (Other ''connection refused'')"

definition pick_first :: "pool \<Rightarrow> nat" where
  "pick_first a = 0"

text \<open>
  Sample attempts of \<open>retry\<close>: one on a connection that is lost while the call
  waits, one on a connection that answers, one after the pool is exhausted.
\<close>

definition attempt_lost :: attempt where
  "attempt_lost = \<lparr>a_conn = Some (new_conn ''10.0.0.1:8046''), a_write = Written,
                    a_inbound = [Inl EOF]\<rparr>"

definition attempt_good :: attempt where
  "attempt_good = \<lparr>a_conn = Some (new_conn ''10.0.0.2:8046''), a_write = Written,
                    a_inbound = [Inr (frame 0 3)]\<rparr>"

definition attempt_none :: attempt where
  "attempt_none = \<lparr>a_conn = None, a_write = Written, a_inbound = []\<rparr>"

text \<open>
  A connection that has been torn down has its sticky error set and an
  empty table.
\<close>

definition torn_ok :: "conn \<Rightarrow> bool" where
  "torn_ok c \<longleftrightarrow> (c_closed c \<longrightarrow> c_err c \<noteq> None \<and> c_cb c = [])"

section \<open>Error translation of a unary call\<close>

lemma codes0_distinct: "codes_distinct codes0"
  by (simp add: codes_distinct_def codes0_def)

lemma errs_lookup:
  assumes "codes_distinct k"
  shows "errs k (Response_NOTDIR k) = Some ENOTDIR"
    and "errs k (Response_ISDIR k) = Some EISDIR"
    and "errs k (Response_NOENT k) = Some ENOENT"
    and "errs k (Response_REV_MISMATCH k) = Some ErrOldRev"
    and "errs k (Response_TOO_LATE k) = Some TooLate"
  using assms by (auto simp: errs_def codes_distinct_def)

lemma errs_unknown:
  assumes "c \<notin> {Response_NOTDIR k, Response_ISDIR k, Response_NOENT k,
                Response_REV_MISMATCH k, Response_TOO_LATE k}"
  shows "errs k c = None"
  using assms by (simp add: errs_def)

text \<open>
  C5, as stated: a delivered response with a known error code yields the typed
  error. This fails when the response also carries a detail: with code
  \<open>Response_NOENT\<close> and detail \<open>''gone''\<close> the call returns the generic
  \<open>Error\<close>, not \<open>ENOENT\<close>.
\<close>

theorem C5_known_code_with_detail_counterexample:
  "call_result codes0 (Some (R0\<lparr>R_ErrCode := Some (Response_NOENT codes0),
                                R_ErrDetail := Some ''gone''\<rparr>))
     = Inl (Error 22 ''gone'')
   \<and> call_result codes0 (Some (R0\<lparr>R_ErrCode := Some (Response_NOENT codes0),
                                  R_ErrDetail := Some ''gone''\<rparr>))
     \<noteq> Inl ENOENT"
  by (simp add: call_result_def R_err_def R0_def codes0_def)

text \<open>
  C5, amended: for a delivered response with an error code \<open>c\<close>, the call returns
  the generic \<open>Error\<close> with the code and the detail whenever a detail is present
  (known code or not); without a detail it returns the typed error for each of
  the five known codes and the generic \<open>Error\<close> with the code and an empty
  detail for any other code. A sink closed without delivery (nil response)
  yields \<open>EOF\<close>. A response without an error code is returned as it is.
\<close>

theorem C5_call_error_translation:
  assumes "codes_distinct k"
  shows "call_result k None = Inl EOF
    \<and> (\<forall>r c d. R_ErrCode r = Some c \<and> R_ErrDetail r = Some d \<longrightarrow>
          call_result k (Some r) = Inl (Error c d))
    \<and> (\<forall>r. R_ErrDetail r = None \<longrightarrow>
          (R_ErrCode r = Some (Response_NOTDIR k) \<longrightarrow> call_result k (Some r) = Inl ENOTDIR)
        \<and> (R_ErrCode r = Some (Response_ISDIR k) \<longrightarrow> call_result k (Some r) = Inl EISDIR)
        \<and> (R_ErrCode r = Some (Response_NOENT k) \<longrightarrow> call_result k (Some r) = Inl ENOENT)
        \<and> (R_ErrCode r = Some (Response_REV_MISMATCH k) \<longrightarrow>
              call_result k (Some r) = Inl ErrOldRev)
        \<and> (R_ErrCode r = Some (Response_TOO_LATE k) \<longrightarrow> call_result k (Some r) = Inl TooLate)
        \<and> (\<forall>c. R_ErrCode r = Some c \<and>
               c \<notin> {Response_NOTDIR k, Response_ISDIR k, Response_NOENT k,
                     Response_REV_MISMATCH k, Response_TOO_LATE k} \<longrightarrow>
               call_result k (Some r) = Inl (Error c [])))
    \<and> (\<forall>r. R_ErrCode r = None \<longrightarrow> call_result k (Some r) = Inr (Some r))"
  using errs_lookup [OF assms]
  by (simp add: call_result_def R_err_def errs_unknown)

theorem C5_call_error_translation_witness:
  "codes_distinct codes0
   \<and> call_result codes0 None = Inl EOF
   \<and> call_result codes0 (Some (R0\<lparr>R_ErrCode := Some 22\<rparr>)) = Inl ENOENT
   \<and> call_result codes0 (Some (R0\<lparr>R_ErrCode := Some 5\<rparr>)) = Inl ErrOldRev
   \<and> call_result codes0 (Some (R0\<lparr>R_ErrCode := Some 99\<rparr>)) = Inl (Error 99 [])
   \<and> call_result codes0 (Some (R0\<lparr>R_ErrCode := Some 99, R_ErrDetail := Some ''x''\<rparr>))
       = Inl (Error 99 ''x'')
   \<and> call_result codes0 (Some R0) = Inr (Some R0)"
  using C5_call_error_translation [OF codes0_distinct] codes0_distinct
  by (simp add: R0_def codes0_def)

section \<open>Tag allocation\<close>

lemma unused_tag_scan:
  "map_of tbl (i + of_nat j) = None \<Longrightarrow>
   (\<forall>j' < j. map_of tbl (i + of_nat j') \<noteq> None) \<Longrightarrow>
   unused_tag tbl i = Some (i + of_nat j)"
proof (induction j arbitrary: i)
  case 0
  then show ?case by (simp add: unused_tag.simps)
next
  case (Suc j)
  have here: "map_of tbl i \<noteq> None"
    using Suc.prems(2) [rule_format, of 0] by simp
  have a: "map_of tbl ((i + 1) + of_nat j) = None"
    using Suc.prems(1) by (simp add: ac_simps)
  have b: "\<forall>j' < j. map_of tbl ((i + 1) + of_nat j') \<noteq> None"
  proof (intro allI impI)
    fix j' assume "j' < j"
    then have "Suc j' < Suc j" by simp
    then have "map_of tbl (i + of_nat (Suc j')) \<noteq> None"
      using Suc.prems(2) [rule_format, of "Suc j'"] by blast
    then show "map_of tbl ((i + 1) + of_nat j') \<noteq> None"
      by (simp add: ac_simps)
  qed
  have "unused_tag tbl i = unused_tag tbl (i + 1)"
    using here by (subst unused_tag.simps) simp
  also have "\<dots> = Some ((i + 1) + of_nat j)" by (rule Suc.IH [OF a b])
  finally show ?case by (simp add: ac_simps)
qed

lemma unused_tag_free:
  assumes "unused_tag tbl i = Some t"
  shows "map_of tbl t = None"
proof (rule unused_tag.raw_induct [where P = "\<lambda>tbl i t. map_of tbl t = None", OF _ assms])
  fix f :: "(int32 \<times> chan option) list \<Rightarrow> int32 \<Rightarrow> int32 option" and tbl i t
  assume IH: "\<And>tbl i t. f tbl i = Some t \<Longrightarrow> map_of tbl t = None"
    and step: "(if map_of tbl i \<noteq> None then f tbl (i + 1) else Some i) = Some t"
  show "map_of tbl t = None"
  proof (cases "map_of tbl i = None")
    case True
    with step show ?thesis by simp
  next
    case False
    with step have "f tbl (i + 1) = Some t" by simp
    then show ?thesis by (rule IH)
  qed
qed

lemma unused_tag_total:
  assumes "map_of tbl (free :: int32) = None"
  shows "\<exists>t. unused_tag tbl i = Some t \<and> map_of tbl t = None"
proof -
  have "map_of tbl (i + of_nat (unat (free - i))) = None" using assms by simp
  then have ex: "\<exists>j. map_of tbl (i + of_nat j) = None" by blast
  define j where "j = (LEAST j. map_of tbl (i + of_nat j) = None)"
  have 1: "map_of tbl (i + of_nat j) = None" unfolding j_def using ex by (rule LeastI_ex)
  have 2: "\<forall>j' < j. map_of tbl (i + of_nat j') \<noteq> None"
    unfolding j_def using not_less_Least by blast
  from unused_tag_scan [OF 1 2] 1 show ?thesis by blast
qed

lemma table_has_free:
  assumes "length tbl < 2 ^ 32"
  shows "\<exists>t :: int32. map_of tbl t = None"
proof (rule ccontr)
  assume "\<not> ?thesis"
  then have "dom (map_of tbl) = (UNIV :: int32 set)" by auto
  then have "card (fst ` set tbl) = card (UNIV :: int32 set)" by (simp add: dom_map_of_conv_image_fst)
  moreover have "card (fst ` set tbl) \<le> length tbl"
    by (metis card_image_le card_length le_trans List.finite_set)
  moreover have "card (UNIV :: int32 set) = 2 ^ 32" by (simp add: card_word)
  ultimately show False using assms by simp
qed

section \<open>Properties of writeT and send\<close>

lemma map_of_None_notin: "map_of tbl k = None \<Longrightarrow> k \<notin> fst ` set tbl"
  by (simp add: map_of_eq_None_iff)

lemma delete_update_absent:
  "map_of tbl k = None \<Longrightarrow> AList.delete k (AList.update k v tbl) = tbl"
  by (simp add: delete_update_same map_of_None_notin)

lemma writeT_err: "c_err c = Some e \<Longrightarrow> writeT c t w = (c, Some e)"
  by (simp add: writeT_def)

lemma send_err: "c_err c = Some e \<Longrightarrow> send c t w = Some (c, t, Inl e)"
  by (simp add: send_def)

lemma send_Written:
  assumes "c_err c = None" and "unused_tag (c_cb c) (c_n c) = Some tag"
  shows "send c t Written =
           Some (emit [Wrote (t\<lparr>T_Tag := Some tag\<rparr>)] (registered c tag),
                 t\<lparr>T_Tag := Some tag\<rparr>, Inr (c_fresh c))"
  using assms by (simp add: send_def writeT_def emit_def registered_def Let_def)

lemma send_MarshalFails:
  assumes "c_err c = None" and "unused_tag (c_cb c) (c_n c) = Some tag"
  shows "send c t (MarshalFails m) =
           Some (emit [Release tag]
                   ((registered c tag)\<lparr>c_cb := c_cb c\<rparr>),
                 t\<lparr>T_Tag := Some tag\<rparr>, Inl (Other m))"
  using assms unused_tag_free [OF assms(2)]
  by (simp add: send_def writeT_def emit_def registered_def released_def Let_def
        delete_update_absent)

lemma send_write_fails:
  assumes "c_err c = None" and "unused_tag (c_cb c) (c_n c) = Some tag"
    and "w = PrefixFails m \<or> w = BodyFails m"
  shows "send c t w =
           Some (emit [WriteFailed (t\<lparr>T_Tag := Some tag\<rparr>), Release tag]
                   ((registered c tag)\<lparr>c_cb := c_cb c, c_err := Some (Other m)\<rparr>),
                 t\<lparr>T_Tag := Some tag\<rparr>, Inl (Other m))"
  using assms unused_tag_free [OF assms(2)]
  by (auto simp: send_def writeT_def emit_def registered_def released_def Let_def
        delete_update_absent)

lemma send_None: "send c t w = None \<longleftrightarrow> c_err c = None \<and> unused_tag (c_cb c) (c_n c) = None"
  by (auto simp: send_def writeT_def Let_def split: option.splits write_outcome.splits prod.splits)

text \<open>
  C10: a send that has allocated a tag and then fails to write the frame
  (marshal error or write error) returns the error with the callback table
  exactly as it was before the call: the tag it registered was unmapped, and
  the entry is removed again (\<open>Release\<close>) after the failed write and before
  the return. The hypothesis that some tag is unmapped makes the tag loop end.
\<close>

theorem C10_failed_send_restores_table:
  assumes "c_err c = None" and "w \<noteq> Written" and "map_of (c_cb c) free = None"
  shows "\<exists>c' tag e mid.
           send c t w = Some (c', t\<lparr>T_Tag := Some tag\<rparr>, Inl e)
         \<and> map_of (c_cb c) tag = None
         \<and> c_cb c' = c_cb c
         \<and> open_sinks (c_cb c') = open_sinks (c_cb c)
         \<and> c_trace c' = c_trace c @ [Register tag (c_fresh c)] @ mid @ [Release tag]
         \<and> set mid \<subseteq> {WriteFailed (t\<lparr>T_Tag := Some tag\<rparr>)}"
proof -
  from unused_tag_total [OF assms(3)] obtain tag
    where tag: "unused_tag (c_cb c) (c_n c) = Some tag" and free: "map_of (c_cb c) tag = None"
    by blast
  show ?thesis
  proof (cases w)
    case (MarshalFails m)
    show ?thesis
      using send_MarshalFails [OF assms(1) tag, of t m] free MarshalFails
      by (simp add: emit_def registered_def)
  next
    case (PrefixFails m)
    then have "w = PrefixFails m \<or> w = BodyFails m" by simp
    from send_write_fails [OF assms(1) tag this, of t] free show ?thesis
      by (simp add: emit_def registered_def)
  next
    case (BodyFails m)
    then have "w = PrefixFails m \<or> w = BodyFails m" by simp
    from send_write_fails [OF assms(1) tag this, of t] free show ?thesis
      by (simp add: emit_def registered_def)
  next
    case Written
    with assms(2) show ?thesis by simp
  qed
qed

theorem C10_failed_send_restores_table_witness:
  "c_err (new_conn ''a'') = None \<and> BodyFails ''reset'' \<noteq> Written
   \<and> map_of (c_cb (new_conn ''a'')) (0 :: int32) = None
   \<and> (\<exists>c' tag e mid.
         send (new_conn ''a'') (T_new GET) (BodyFails ''reset'')
           = Some (c', (T_new GET)\<lparr>T_Tag := Some tag\<rparr>, Inl e)
       \<and> map_of (c_cb (new_conn ''a'')) tag = None
       \<and> c_cb c' = c_cb (new_conn ''a'')
       \<and> open_sinks (c_cb c') = open_sinks (c_cb (new_conn ''a''))
       \<and> c_trace c' = c_trace (new_conn ''a'') @ [Register tag (c_fresh (new_conn ''a''))]
                         @ mid @ [Release tag]
       \<and> set mid \<subseteq> {WriteFailed ((T_new GET)\<lparr>T_Tag := Some tag\<rparr>)})"
proof -
  have h1: "c_err (new_conn ''a'') = None" by (simp add: new_conn_def)
  have h2: "BodyFails ''reset'' \<noteq> Written" by simp
  have h3: "map_of (c_cb (new_conn ''a'')) (0 :: int32) = None" by (simp add: new_conn_def)
  from C10_failed_send_restores_table [OF h1 h2 h3, of "T_new GET"] h1 h2 h3
  show ?thesis by blast
qed

section \<open>The read loop\<close>

lemma rr_redirect_fields [simp]:
  "c_cb (rr_redirect k c r) = c_cb c"
  "c_trace (rr_redirect k c r) = c_trace c"
  "c_err (rr_redirect k c r) = c_err c"
  "c_closed (rr_redirect k c r) = c_closed c"
  "c_fresh (rr_redirect k c r) = c_fresh c"
  "c_n (rr_redirect k c r) = c_n c"
  by (simp_all add: rr_redirect_def)

lemma emit_fields [simp]:
  "c_cb (emit es c) = c_cb c"
  "c_trace (emit es c) = c_trace c @ es"
  "c_err (emit es c) = c_err c"
  "c_closed (emit es c) = c_closed c"
  "c_fresh (emit es c) = c_fresh c"
  "c_n (emit es c) = c_n c"
  by (simp_all add: emit_def)

lemma released_fields [simp]:
  "c_cb (released c tag) = AList.delete tag (c_cb c)"
  "c_trace (released c tag) = c_trace c @ [Release tag]"
  "c_err (released c tag) = c_err c"
  "c_closed (released c tag) = c_closed c"
  "c_fresh (released c tag) = c_fresh c"
  "c_n (released c tag) = c_n c"
  by (simp_all add: released_def)

lemma reserved_fields [simp]:
  "c_cb (reserved c tag) = AList.update tag None (c_cb c)"
  "c_trace (reserved c tag) = c_trace c @ [Reserve tag]"
  "c_err (reserved c tag) = c_err c"
  "c_closed (reserved c tag) = c_closed c"
  "c_fresh (reserved c tag) = c_fresh c"
  "c_n (reserved c tag) = c_n c"
  by (simp_all add: reserved_def)

lemma registered_fields [simp]:
  "c_cb (registered c tag) = AList.update tag (Some (c_fresh c)) (c_cb c)"
  "c_trace (registered c tag) = c_trace c @ [Register tag (c_fresh c)]"
  "c_err (registered c tag) = c_err c"
  "c_closed (registered c tag) = c_closed c"
  "c_fresh (registered c tag) = Suc (c_fresh c)"
  "c_n (registered c tag) = tag"
  by (simp_all add: registered_def)

lemma rr_frame_keeps [simp]:
  "c_err (rr_frame k c r) = c_err c"
  "c_closed (rr_frame k c r) = c_closed c"
  "c_fresh (rr_frame k c r) = c_fresh c"
  "c_n (rr_frame k c r) = c_n c"
  by (simp_all add: rr_frame_def rr_table_def rr_deliver_def Let_def split: option.splits)

text \<open>
  C3: for a frame with the Done flag whose tag maps to an open sink \<open>ch\<close>, the
  locked part of the turn (\<open>rr_table\<close>) removes the tag; the part that sends
  to the sink and closes it (\<open>rr_deliver\<close>) starts from a table without the
  tag and leaves the table alone. In the trace of the turn the \<open>Release\<close>
  comes before the \<open>Send\<close> and the \<open>Close\<close>.
\<close>

theorem C3_done_released_before_delivery:
  assumes "GetInt32 (R_Flags r) AND Done \<noteq> 0"
    and "map_of (c_cb c) (GetInt32 (R_Tag r)) = Some (Some ch)"
  shows "\<exists>c1. rr_table (rr_redirect k (emit [Read_frame r] c) r) r = (c1, Some (Some ch))
          \<and> map_of (c_cb c1) (GetInt32 (R_Tag r)) = None
          \<and> c_trace c1 = c_trace c @ [Read_frame r, Release (GetInt32 (R_Tag r))]
          \<and> rr_frame k c r = rr_deliver c1 r (Some (Some ch))
          \<and> c_cb (rr_frame k c r) = c_cb c1
          \<and> c_trace (rr_frame k c r) =
               c_trace c1 @ (if GetInt32 (R_Flags r) AND Valid \<noteq> 0 then [Send ch r] else [])
                 @ [Close ch]"
  using assms
  by (simp add: rr_frame_def rr_table_def rr_deliver_def Let_def delete_conv')

lemma conn1_eq:
  "conn1 = \<lparr>c_addr = ''10.0.0.1:8046'', c_err = None, c_n = 0, c_cb = [(0, Some 0)],
             c_redirectAddr = [], c_redirected = False, c_closed = False,
             c_trace = [Register 0 0, Wrote ((T_new GET)\<lparr>T_Tag := Some 0\<rparr>)],
             c_fresh = Suc 0\<rparr>"
proof -
  have "unused_tag [] (0 :: int32) = Some 0" by (subst unused_tag.simps) simp
  then show ?thesis
    by (simp add: conn1_def send_def new_conn_def registered_def writeT_def emit_def Let_def)
qed

lemma flag_tests [simp]:
  "(3 :: int32) AND Done \<noteq> 0" "(3 :: int32) AND Valid \<noteq> 0"
  "(2 :: int32) AND Done \<noteq> 0" "(2 :: int32) AND Valid = 0"
  "(1 :: int32) AND Done = 0" "(1 :: int32) AND Valid \<noteq> 0"
  "(0 :: int32) AND Done = 0" "(0 :: int32) AND Valid = 0"
  by (simp_all add: Done_def Valid_def)

theorem C3_done_released_before_delivery_witness:
  "GetInt32 (R_Flags (frame 0 3)) AND Done \<noteq> 0
   \<and> map_of (c_cb conn1) (GetInt32 (R_Tag (frame 0 3))) = Some (Some 0)
   \<and> (\<exists>c1. rr_table (rr_redirect codes0 (emit [Read_frame (frame 0 3)] conn1) (frame 0 3))
               (frame 0 3) = (c1, Some (Some 0))
          \<and> map_of (c_cb c1) 0 = None
          \<and> c_trace c1 = c_trace conn1 @ [Read_frame (frame 0 3), Release 0]
          \<and> rr_frame codes0 conn1 (frame 0 3) = rr_deliver c1 (frame 0 3) (Some (Some 0))
          \<and> c_cb (rr_frame codes0 conn1 (frame 0 3)) = c_cb c1
          \<and> c_trace (rr_frame codes0 conn1 (frame 0 3)) =
               c_trace c1 @ [Send 0 (frame 0 3), Close 0])"
proof -
  have h1: "GetInt32 (R_Flags (frame 0 3)) AND Done \<noteq> 0"
    by (simp add: frame_def GetInt32_def)
  have h2: "map_of (c_cb conn1) (GetInt32 (R_Tag (frame 0 3))) = Some (Some 0)"
    by (simp add: conn1_eq frame_def GetInt32_def)
  have v: "GetInt32 (R_Flags (frame 0 3)) AND Valid \<noteq> 0"
    by (simp add: frame_def GetInt32_def)
  have t: "GetInt32 (R_Tag (frame 0 3)) = 0" by (simp add: frame_def GetInt32_def)
  from C3_done_released_before_delivery [OF h1 h2, of codes0] h1 h2 v t
  show ?thesis by simp
qed

text \<open>
  C4: one turn of the read loop on the frame \<open>r\<close>, by the entry of its tag.
  No entry: the frame is logged and nothing is sent to or closed on any
  sink. Placeholder: nothing happens beyond the read, and the table is
  unchanged. Open sink \<open>ch\<close>: \<open>r\<close> is sent to \<open>ch\<close> exactly when Valid is set, and
  \<open>ch\<close> is closed, after the send, exactly when Done is set. In every case the
  loop goes on with the next input: the turn does not set the sticky error or
  mark the connection closed.
\<close>

theorem C4_read_loop_dispatch:
  "(map_of (c_cb c) (GetInt32 (R_Tag r)) = None \<longrightarrow>
      c_trace (rr_frame k c r) =
        c_trace c @ [Read_frame r]
          @ (if GetInt32 (R_Flags r) AND Done \<noteq> 0 then [Release (GetInt32 (R_Tag r))] else [])
          @ [Log (GetInt32 (R_Tag r))])
   \<and> (map_of (c_cb c) (GetInt32 (R_Tag r)) = Some None \<longrightarrow>
      c_trace (rr_frame k c r) = c_trace c @ [Read_frame r]
      \<and> c_cb (rr_frame k c r) = c_cb c)
   \<and> (\<forall>ch. map_of (c_cb c) (GetInt32 (R_Tag r)) = Some (Some ch) \<longrightarrow>
      c_trace (rr_frame k c r) =
        c_trace c @ [Read_frame r]
          @ (if GetInt32 (R_Flags r) AND Done \<noteq> 0 then [Release (GetInt32 (R_Tag r))] else [])
          @ (if GetInt32 (R_Flags r) AND Valid \<noteq> 0 then [Send ch r] else [])
          @ (if GetInt32 (R_Flags r) AND Done \<noteq> 0 then [Close ch] else []))
   \<and> c_err (rr_frame k c r) = c_err c
   \<and> c_closed (rr_frame k c r) = c_closed c
   \<and> readResponses k c (Inr r # rest) = readResponses k (rr_frame k c r) rest"
proof (intro conjI allI impI)
  assume "map_of (c_cb c) (GetInt32 (R_Tag r)) = None"
  then show "c_trace (rr_frame k c r) =
        c_trace c @ [Read_frame r]
          @ (if GetInt32 (R_Flags r) AND Done \<noteq> 0 then [Release (GetInt32 (R_Tag r))] else [])
          @ [Log (GetInt32 (R_Tag r))]"
    by (simp add: rr_frame_def rr_table_def rr_deliver_def Let_def)
next
  assume "map_of (c_cb c) (GetInt32 (R_Tag r)) = Some None"
  then show "c_trace (rr_frame k c r) = c_trace c @ [Read_frame r]"
    and "c_cb (rr_frame k c r) = c_cb c"
    by (simp_all add: rr_frame_def rr_table_def rr_deliver_def Let_def)
next
  fix ch assume "map_of (c_cb c) (GetInt32 (R_Tag r)) = Some (Some ch)"
  then show "c_trace (rr_frame k c r) =
        c_trace c @ [Read_frame r]
          @ (if GetInt32 (R_Flags r) AND Done \<noteq> 0 then [Release (GetInt32 (R_Tag r))] else [])
          @ (if GetInt32 (R_Flags r) AND Valid \<noteq> 0 then [Send ch r] else [])
          @ (if GetInt32 (R_Flags r) AND Done \<noteq> 0 then [Close ch] else [])"
    by (simp add: rr_frame_def rr_table_def rr_deliver_def Let_def)
qed simp_all

theorem C4_read_loop_dispatch_witness:
  "map_of (c_cb conn1) (GetInt32 (R_Tag (frame 7 0))) = None
   \<and> c_trace (rr_frame codes0 conn1 (frame 7 0)) =
       c_trace conn1 @ [Read_frame (frame 7 0), Log 7]
   \<and> map_of (c_cb (conn1\<lparr>c_cb := [(0, None)]\<rparr>)) (GetInt32 (R_Tag (frame 0 3))) = Some None
   \<and> c_trace (rr_frame codes0 (conn1\<lparr>c_cb := [(0, None)]\<rparr>) (frame 0 3)) =
       c_trace conn1 @ [Read_frame (frame 0 3)]
   \<and> map_of (c_cb conn1) (GetInt32 (R_Tag (frame 0 1))) = Some (Some 0)
   \<and> c_trace (rr_frame codes0 conn1 (frame 0 1)) =
       c_trace conn1 @ [Read_frame (frame 0 1), Send 0 (frame 0 1)]
   \<and> c_trace (rr_frame codes0 conn1 (frame 0 2)) =
       c_trace conn1 @ [Read_frame (frame 0 2), Release 0, Close 0]
   \<and> c_trace (rr_frame codes0 conn1 (frame 0 0)) = c_trace conn1 @ [Read_frame (frame 0 0)]
   \<and> c_closed (readResponses codes0 conn1 [Inr (frame 7 0), Inr (frame 0 0)]) = False"
proof -
  have g [simp]: "\<And>t f. GetInt32 (R_Tag (frame t f)) = t" "\<And>t f. GetInt32 (R_Flags (frame t f)) = f"
    by (simp_all add: frame_def GetInt32_def)
  have h1: "map_of (c_cb conn1) (GetInt32 (R_Tag (frame 7 0))) = None"
    by (simp add: conn1_eq)
  have h2: "map_of (c_cb (conn1\<lparr>c_cb := [(0, None)]\<rparr>)) (GetInt32 (R_Tag (frame 0 3))) = Some None"
    by simp
  have h3: "\<And>f. map_of (c_cb conn1) (GetInt32 (R_Tag (frame 0 f))) = Some (Some 0)"
    by (simp add: conn1_eq)
  have c: "c_closed conn1 = False" by (simp add: conn1_eq)
  note C = C4_read_loop_dispatch [of _ _ codes0]
  show ?thesis
    using C [of conn1 "frame 7 0" "[Inr (frame 0 0)]"]
      C [of "conn1\<lparr>c_cb := [(0, None)]\<rparr>" "frame 0 3" "[]"]
      C [of conn1 "frame 0 1" "[]"] C [of conn1 "frame 0 2" "[]"] C [of conn1 "frame 0 0" "[]"]
      C [of "rr_frame codes0 conn1 (frame 7 0)" "frame 0 0" "[]"]
      h1 h2 h3 c
    by simp
qed

section \<open>The table stays well formed along every schedule\<close>

lemma open_sinks_simps [simp]:
  "open_sinks [] = []"
  "open_sinks ((t, None) # tbl) = open_sinks tbl"
  "open_sinks ((t, Some ch) # tbl) = ch # open_sinks tbl"
  by (simp_all add: open_sinks_def List.map_filter_simps)

lemma open_sinks_mem:
  "ch \<in> set (open_sinks tbl) \<longleftrightarrow> (\<exists>t. (t, Some ch) \<in> set tbl)"
  by (induction tbl) (auto simp: open_sinks_def List.map_filter_simps split: option.splits)

lemma open_sinks_delete_subset:
  "set (open_sinks (AList.delete t tbl)) \<subseteq> set (open_sinks tbl)"
  by (auto simp: open_sinks_mem AList.delete_eq)

lemma open_sinks_delete_distinct:
  "distinct (open_sinks tbl) \<Longrightarrow> distinct (open_sinks (AList.delete t tbl))"
proof (induction tbl)
  case Nil
  then show ?case by simp
next
  case (Cons p tbl)
  obtain t' e where p: "p = (t', e)" by (cases p)
  show ?case
  proof (cases e)
    case None
    with Cons p show ?thesis by simp
  next
    case (Some ch)
    with Cons p open_sinks_delete_subset [of t tbl] show ?thesis by auto
  qed
qed

lemma open_sinks_update_None_subset:
  "set (open_sinks (AList.update t None tbl)) \<subseteq> set (open_sinks tbl)"
proof (induction tbl)
  case Nil
  then show ?case by simp
next
  case (Cons p tbl)
  obtain t' e where p: "p = (t', e)" by (cases p)
  with Cons show ?case by (cases e) auto
qed

lemma open_sinks_update_None_distinct:
  "distinct (open_sinks tbl) \<Longrightarrow> distinct (open_sinks (AList.update t None tbl))"
proof (induction tbl)
  case Nil
  then show ?case by simp
next
  case (Cons p tbl)
  obtain t' e where p: "p = (t', e)" by (cases p)
  show ?case
  proof (cases e)
    case None
    with Cons p show ?thesis by simp
  next
    case (Some ch)
    with Cons p open_sinks_update_None_subset [of t tbl] show ?thesis by auto
  qed
qed

lemma open_sinks_update_new:
  "map_of tbl t = None \<Longrightarrow> open_sinks (AList.update t (Some ch) tbl) = open_sinks tbl @ [ch]"
proof (induction tbl)
  case Nil
  then show ?case by simp
next
  case (Cons p tbl)
  obtain t' e where p: "p = (t', e)" by (cases p)
  with Cons show ?case by (cases e) (auto split: if_splits)
qed

lemma table_ok_registered:
  assumes "table_ok c" and "map_of (c_cb c) tag = None"
  shows "table_ok (registered c tag)"
  using assms by (auto simp: table_ok_def open_sinks_update_new distinct_update)

lemma table_ok_released: "table_ok c \<Longrightarrow> table_ok (released c tag)"
  using open_sinks_delete_subset [of tag "c_cb c"]
  by (auto simp: table_ok_def open_sinks_delete_distinct distinct_delete)

lemma table_ok_reserved: "table_ok c \<Longrightarrow> table_ok (reserved c tag)"
  using open_sinks_update_None_subset [of tag "c_cb c"]
  by (auto simp: table_ok_def open_sinks_update_None_distinct distinct_update)

lemma table_ok_cong:
  "c_cb c' = c_cb c \<Longrightarrow> c_fresh c' = c_fresh c \<Longrightarrow> table_ok c' = table_ok c"
  by (simp add: table_ok_def)

lemma writeT_fields [simp]:
  "c_cb (fst (writeT c t w)) = c_cb c"
  "c_fresh (fst (writeT c t w)) = c_fresh c"
  "c_closed (fst (writeT c t w)) = c_closed c"
  "c_n (fst (writeT c t w)) = c_n c"
  by (simp_all add: writeT_def split: option.splits write_outcome.splits)

lemma table_ok_new_conn: "table_ok (new_conn a)"
  by (simp add: table_ok_def new_conn_def)

lemma conn_close_fields [simp]:
  "c_cb (conn_close c) = []"
  "c_fresh (conn_close c) = c_fresh c"
  "c_closed (conn_close c) = True"
  "c_err (conn_close c) = c_err c"
  "c_n (conn_close c) = c_n c"
  "c_trace (conn_close c) = c_trace c @ map Close (open_sinks (c_cb c)) @ [Clear, Notify]"
  by (simp_all add: conn_close_def)

lemma table_ok_conn_close: "table_ok (conn_close c)"
  by (simp add: table_ok_def)

lemma table_ok_rr_frame: "table_ok c \<Longrightarrow> table_ok (rr_frame k c r)"
proof -
  assume ok: "table_ok c"
  let ?c0 = "rr_redirect k (emit [Read_frame r] c) r"
  have ok0: "table_ok ?c0" using ok by (simp add: table_ok_def)
  have ok1: "table_ok (fst (rr_table ?c0 r))"
    using ok0 table_ok_released [OF ok0] by (simp add: rr_table_def Let_def)
  have "table_ok (rr_deliver (fst (rr_table ?c0 r)) r e)" for e
    using ok1 by (simp add: rr_deliver_def Let_def table_ok_def split: option.splits)
  then show ?thesis by (simp add: rr_frame_def Let_def case_prod_beta)
qed

lemma table_ok_readResponses: "table_ok c \<Longrightarrow> table_ok (readResponses k c inb)"
proof (induction inb arbitrary: c)
  case Nil
  then show ?case by simp
next
  case (Cons x inb)
  show ?case
  proof (cases x)
    case (Inl e)
    then show ?thesis by (simp add: table_ok_conn_close)
  next
    case (Inr r)
    with Cons table_ok_rr_frame show ?thesis by simp
  qed
qed

lemma table_ok_reader: "table_ok c \<Longrightarrow> table_ok (reader k c inb)"
  by (simp add: reader_def table_ok_readResponses)

lemma table_ok_step:
  assumes "table_ok c" and "step_conn k c s = Some c'"
  shows "table_ok c'"
proof (cases s)
  case Alloc
  with assms obtain tag where "unused_tag (c_cb c) (c_n c) = Some tag" "c' = registered c tag"
    by auto
  with assms(1) unused_tag_free show ?thesis by (simp add: table_ok_registered)
next
  case (WriteT t w)
  with assms show ?thesis by (auto simp: table_ok_def)
next
  case (Free tag)
  with assms show ?thesis by (auto simp: table_ok_released)
next
  case (Frame r)
  with assms show ?thesis by (auto simp: table_ok_reader)
next
  case (ReadErr e)
  with assms show ?thesis by (auto simp: table_ok_reader)
next
  case (CancelReserve tag cbp)
  with assms show ?thesis
    by (auto simp: cancel_reserve_def table_ok_reserved split: option.splits if_splits)
next
  case (CloseSink ch)
  with assms show ?thesis by (auto simp: table_ok_def)
qed

lemma table_ok_steps:
  "table_ok c \<Longrightarrow> steps k c ss = Some c' \<Longrightarrow> table_ok c'"
proof (induction ss arbitrary: c)
  case Nil
  then show ?case by simp
next
  case (Cons s ss)
  then show ?case by (auto split: option.splits dest: table_ok_step)
qed

lemma open_sinks_one_tag:
  assumes "distinct (open_sinks tbl)"
    and "(t, Some ch) \<in> set tbl" and "(t', Some ch) \<in> set tbl"
    and "distinct (map fst tbl)"
  shows "t = t'"
  using assms
proof (induction tbl)
  case Nil
  then show ?case by simp
next
  case (Cons p tbl)
  obtain t0 e where p: "p = (t0, e)" by (cases p)
  show ?case
  proof (cases e)
    case None
    with Cons p show ?thesis by auto
  next
    case (Some ch0)
    with Cons p show ?thesis by (auto simp: open_sinks_mem)
  qed
qed

lemma table_ok_one_tag:
  assumes "table_ok c"
    and "map_of (c_cb c) tag = Some (Some ch)" and "map_of (c_cb c) tag' = Some (Some ch)"
  shows "tag = tag'"
  using assms open_sinks_one_tag [of "c_cb c" tag ch tag']
  by (auto simp: table_ok_def dest: map_of_SomeD)

lemma table_ok_fresh_unused: "table_ok c \<Longrightarrow> c_fresh c \<notin> set (open_sinks (c_cb c))"
  by (auto simp: table_ok_def)

lemma rr_frame_sends:
  assumes "Send ch r' \<in> set (new_effects c (rr_frame k c r))"
  shows "r' = r \<and> map_of (c_cb c) (GetInt32 (R_Tag r)) = Some (Some ch)"
  using assms
  by (auto simp: new_effects_def rr_frame_def rr_table_def rr_deliver_def Let_def
      split: option.splits if_splits)

lemma send_Inr:
  assumes "send c t w = Some (c', t', Inr ch)"
  shows "\<exists>tag. unused_tag (c_cb c) (c_n c) = Some tag \<and> T_Tag t' = Some tag
           \<and> ch = c_fresh c \<and> c_cb c' = AList.update tag (Some ch) (c_cb c)"
  using assms
  by (auto simp: send_def writeT_def Let_def split: option.splits write_outcome.splits)

text \<open>
  C1: along every schedule of the locked sections of \<open>send\<close>, \<open>cancel\<close> and the
  read loop on one connection, started from a freshly dialed connection, the
  table has at most one entry per tag and no sink under two tags. The tag
  that the allocation of \<open>send\<close> registers has no entry at that moment,
  neither an open sink nor a nil placeholder, and the sink registered is a
  new one; the other entries are untouched. A turn of the read loop sends a
  frame only to the sink that the table holds for the frame's tag.
\<close>

theorem C1_tag_open_for_one_call:
  assumes "steps k (new_conn a) ss = Some c"
  shows "table_ok c
    \<and> (\<forall>tag ch tag'. map_of (c_cb c) tag = Some (Some ch)
          \<and> map_of (c_cb c) tag' = Some (Some ch) \<longrightarrow> tag = tag')
    \<and> (\<forall>c'. step_conn k c Alloc = Some c' \<longrightarrow>
          map_of (c_cb c) (c_n c') = None
        \<and> c_fresh c \<notin> set (open_sinks (c_cb c))
        \<and> map_of (c_cb c') (c_n c') = Some (Some (c_fresh c))
        \<and> (\<forall>tag'. tag' \<noteq> c_n c' \<longrightarrow> map_of (c_cb c') tag' = map_of (c_cb c) tag'))
    \<and> (\<forall>t w c' t' ch. send c t w = Some (c', t', Inr ch) \<longrightarrow>
          (\<exists>tag. T_Tag t' = Some tag \<and> map_of (c_cb c) tag = None
             \<and> ch \<notin> set (open_sinks (c_cb c))
             \<and> map_of (c_cb c') tag = Some (Some ch)))
    \<and> (\<forall>r ch r'. Send ch r' \<in> set (new_effects c (rr_frame k c r)) \<longrightarrow>
          r' = r \<and> map_of (c_cb c) (GetInt32 (R_Tag r)) = Some (Some ch))"
proof -
  have ok: "table_ok c" using table_ok_steps [OF table_ok_new_conn assms] .
  have one: "\<forall>tag ch tag'. map_of (c_cb c) tag = Some (Some ch)
          \<and> map_of (c_cb c) tag' = Some (Some ch) \<longrightarrow> tag = tag'"
    using table_ok_one_tag [OF ok] by blast
  have alloc: "\<forall>c'. step_conn k c Alloc = Some c' \<longrightarrow>
          map_of (c_cb c) (c_n c') = None
        \<and> c_fresh c \<notin> set (open_sinks (c_cb c))
        \<and> map_of (c_cb c') (c_n c') = Some (Some (c_fresh c))
        \<and> (\<forall>tag'. tag' \<noteq> c_n c' \<longrightarrow> map_of (c_cb c') tag' = map_of (c_cb c) tag')"
    using table_ok_fresh_unused [OF ok]
    by (auto simp: update_conv' dest: unused_tag_free)
  have snd: "\<forall>t w c' t' ch. send c t w = Some (c', t', Inr ch) \<longrightarrow>
          (\<exists>tag. T_Tag t' = Some tag \<and> map_of (c_cb c) tag = None
             \<and> ch \<notin> set (open_sinks (c_cb c))
             \<and> map_of (c_cb c') tag = Some (Some ch))"
  proof (intro allI impI)
    fix t w c' t' ch
    assume "send c t w = Some (c', t', Inr ch)"
    from send_Inr [OF this] obtain tag where
      "unused_tag (c_cb c) (c_n c) = Some tag" "T_Tag t' = Some tag" "ch = c_fresh c"
      "c_cb c' = AList.update tag (Some ch) (c_cb c)" by blast
    then show "\<exists>tag. T_Tag t' = Some tag \<and> map_of (c_cb c) tag = None
             \<and> ch \<notin> set (open_sinks (c_cb c))
             \<and> map_of (c_cb c') tag = Some (Some ch)"
      using table_ok_fresh_unused [OF ok] unused_tag_free by (simp add: update_conv')
  qed
  show ?thesis using ok one alloc snd rr_frame_sends by blast
qed

theorem C1_tag_open_for_one_call_witness:
  "steps codes0 (new_conn ''a'') [Alloc, WriteT (T_new GET) Written, Alloc]
     = Some (registered (emit [Wrote (T_new GET)] (registered (new_conn ''a'') 0)) 1)
   \<and> table_ok (registered (emit [Wrote (T_new GET)] (registered (new_conn ''a'') 0)) 1)
   \<and> c_cb (registered (emit [Wrote (T_new GET)] (registered (new_conn ''a'') 0)) 1)
       = [(0, Some 0), (1, Some 1)]"
proof -
  have u0: "unused_tag [] (0 :: int32) = Some 0" by (subst unused_tag.simps) simp
  have u1: "unused_tag [(0, Some 0)] (0 :: int32) = Some 1"
    by (subst unused_tag.simps, simp, subst unused_tag.simps, simp)
  have run: "steps codes0 (new_conn ''a'') [Alloc, WriteT (T_new GET) Written, Alloc]
     = Some (registered (emit [Wrote (T_new GET)] (registered (new_conn ''a'') 0)) 1)"
    using u0 u1 by (simp add: new_conn_def writeT_def registered_def emit_def)
  from C1_tag_open_for_one_call [OF run] run show ?thesis
    by (simp add: new_conn_def)
qed

section \<open>The functions of the connection are schedules of steps\<close>

lemma steps_append:
  "steps k c (ss @ ss') = (case steps k c ss of None \<Rightarrow> None | Some c' \<Rightarrow> steps k c' ss')"
  by (induction ss arbitrary: c) (auto split: option.splits)

lemma send_is_schedule:
  assumes "send c t w = Some (c', t', res)"
  shows "\<exists>ss. steps k c ss = Some c'"
proof (cases "c_err c")
  case (Some e)
  with assms have "c' = c" by (simp add: send_def)
  then have "steps k c [] = Some c'" by simp
  then show ?thesis ..
next
  case None
  with assms obtain tag where tag: "unused_tag (c_cb c) (c_n c) = Some tag"
    by (auto simp: send_def split: option.splits)
  let ?t1 = "t\<lparr>T_Tag := Some tag\<rparr>"
  show ?thesis
  proof (cases "snd (writeT (registered c tag) ?t1 w)")
    case None': None
    with assms None tag have "c' = fst (writeT (registered c tag) ?t1 w)"
      by (auto simp: send_def Let_def split: prod.splits)
    then have "steps k c [Alloc, WriteT ?t1 w] = Some c'" using tag by simp
    then show ?thesis ..
  next
    case (Some e)
    with assms None tag have "c' = released (fst (writeT (registered c tag) ?t1 w)) tag"
      by (auto simp: send_def Let_def split: prod.splits)
    then have "steps k c [Alloc, WriteT ?t1 w, Free tag] = Some c'" using tag by simp
    then show ?thesis ..
  qed
qed

lemma reader_closed: "c_closed c \<Longrightarrow> reader k c inb = c"
  by (simp add: reader_def)

lemma reader_Cons: "reader k c (x # inb) = reader k (reader k c [x]) inb"
proof (cases "c_closed c")
  case True
  then show ?thesis by (simp add: reader_def)
next
  case False
  then show ?thesis by (cases x) (simp_all add: reader_def)
qed

lemma reader_is_schedule: "\<exists>ss. steps k c ss = Some (reader k c inb)"
proof (induction inb arbitrary: c)
  case Nil
  have "steps k c [] = Some (reader k c [])" by (simp add: reader_def)
  then show ?case ..
next
  case (Cons x inb)
  let ?s = "case x of Inl e \<Rightarrow> ReadErr e | Inr r \<Rightarrow> Frame r"
  have one: "step_conn k c ?s = Some (reader k c [x])" by (cases x) simp_all
  from Cons obtain ss where "steps k (reader k c [x]) ss = Some (reader k (reader k c [x]) inb)"
    by blast
  with one have "steps k c (?s # ss) = Some (reader k c (x # inb))"
    by (simp add: reader_Cons [of k c x inb])
  then show ?case ..
qed

lemma conn_call_is_schedule:
  assumes "conn_call k c t w inb = Some (c', res)"
  shows "\<exists>ss. steps k c ss = Some c'"
proof -
  from assms obtain c1 t1 r1 where s: "send c t w = Some (c1, t1, r1)"
    by (auto simp: conn_call_def split: option.splits)
  from send_is_schedule [OF s] obtain ss1 where ss1: "steps k c ss1 = Some c1" ..
  show ?thesis
  proof (cases r1)
    case (Inl e)
    with assms s have "c' = c1" by (simp add: conn_call_def)
    with ss1 show ?thesis by blast
  next
    case (Inr ch)
    with assms s have c': "c' = reader k c1 inb"
      by (auto simp: conn_call_def Let_def split: option.splits)
    from reader_is_schedule obtain ss2 where "steps k c1 ss2 = Some (reader k c1 inb)" ..
    with ss1 c' have "steps k c (ss1 @ ss2) = Some c'" by (simp add: steps_append)
    then show ?thesis ..
  qed
qed

lemma cancel_is_schedule:
  assumes "cancel k c tag cbp w inb = Some (c', res)"
  shows "\<exists>ss. steps k c ss = Some c'"
proof (cases "cancel_reserve c tag cbp")
  case (Inl e)
  with assms have "steps k c [] = Some c'" by (simp add: cancel_def)
  then show ?thesis ..
next
  case (Inr c1)
  then have r: "steps k c [CancelReserve tag cbp] = Some c1" by simp
  let ?t = "(T_new CANCEL)\<lparr>T_OtherTag := Some tag\<rparr>"
  from assms Inr obtain c2 r2 where call: "conn_call k c1 ?t w inb = Some (c2, r2)"
    by (auto simp: cancel_def split: option.splits)
  from conn_call_is_schedule [OF call] obtain ss where ss: "steps k c1 ss = Some c2" ..
  show ?thesis
  proof (cases r2)
    case (Inl e)
    with assms Inr call have "c' = c2" by (simp add: cancel_def)
    with r ss have "steps k c ([CancelReserve tag cbp] @ ss) = Some c'"
      by (simp only: steps_append) simp
    then show ?thesis ..
  next
    case Inr': (Inr rr)
    with assms Inr call have "c' = emit [Close cbp] (released c2 tag)" by (simp add: cancel_def)
    then have "steps k c2 [Free tag, CloseSink cbp] = Some c'" by simp
    with r ss have "steps k c ([CancelReserve tag cbp] @ ss @ [Free tag, CloseSink cbp]) = Some c'"
      by (simp only: steps_append) simp
    then show ?thesis ..
  qed
qed

section \<open>The sticky error\<close>

lemma conn_werr_eq:
  "conn_werr = \<lparr>c_addr = ''10.0.0.1:8046'', c_err = Some (Other ''reset''), c_n = 1,
                 c_cb = [(0, Some 0)],
                 c_redirectAddr = [], c_redirected = False, c_closed = False,
                 c_trace = [Register 0 0, Wrote ((T_new GET)\<lparr>T_Tag := Some 0\<rparr>),
                            Register 1 1, WriteFailed ((T_new GET)\<lparr>T_Tag := Some 1\<rparr>),
                            Release 1],
                 c_fresh = Suc (Suc 0)\<rparr>"
proof -
  have "unused_tag [(0, Some 0)] (0 :: int32) = Some 1"
    by (subst unused_tag.simps, simp, subst unused_tag.simps, simp)
  then show ?thesis
    by (simp add: conn_werr_def conn1_eq send_def registered_def released_def writeT_def
        emit_def Let_def)
qed

text \<open>
  C6, as stated, fails for reading: on \<open>conn_werr\<close> the sticky error was set
  by a failed write, and the read loop still reads the next frame and sends
  it to the sink of tag 0.
\<close>

theorem C6_read_after_write_error_counterexample:
  "c_err conn_werr = Some (Other ''reset'')
   \<and> new_effects conn_werr (reader codes0 conn_werr [Inr (frame 0 1)])
       = [Read_frame (frame 0 1), Send 0 (frame 0 1)]"
  by (simp add: conn_werr_eq reader_def rr_frame_def rr_redirect_def rr_table_def
      rr_deliver_def new_effects_def frame_def R0_def GetInt32_def codes0_def emit_def Let_def
      Done_def Valid_def)

lemma writeT_sticky:
  "c_err c = Some e \<Longrightarrow> c_err (fst (writeT c t w)) = Some e"
  by (simp add: writeT_def)

lemma reader_err_sticky: "c_err c = Some e \<Longrightarrow> c_err (reader k c inb) = Some e"
proof -
  have "c_err c = Some e \<Longrightarrow> c_err (readResponses k c inb) = Some e" for c
  proof (induction inb arbitrary: c)
    case Nil
    then show ?case by simp
  next
    case (Cons x inb)
    then show ?case by (cases x) simp_all
  qed
  then show "c_err c = Some e \<Longrightarrow> c_err (reader k c inb) = Some e"
    by (simp add: reader_def)
qed

lemma rr_frame_writes: "filter is_write (c_trace (rr_frame k c r)) = filter is_write (c_trace c)"
  by (simp add: rr_frame_def rr_table_def rr_deliver_def Let_def split: option.splits)

lemma conn_close_writes: "filter is_write (c_trace (conn_close c)) = filter is_write (c_trace c)"
proof -
  have "filter is_write (map Close xs) = []" for xs by (induction xs) simp_all
  then show ?thesis by simp
qed

lemma reader_writes: "filter is_write (c_trace (reader k c inb)) = filter is_write (c_trace c)"
proof -
  have "filter is_write (c_trace (readResponses k c inb)) = filter is_write (c_trace c)" for c
  proof (induction inb arbitrary: c)
    case Nil
    then show ?case by simp
  next
    case (Cons x inb)
    then show ?case by (cases x) (simp_all add: rr_frame_writes conn_close_writes)
  qed
  then show ?thesis by (simp add: reader_def)
qed

lemma step_with_err:
  assumes "c_err c = Some e" and "step_conn k c s = Some c'"
  shows "c_err c' = Some e \<and> filter is_write (c_trace c') = filter is_write (c_trace c)"
proof (cases s)
  case Alloc
  with assms show ?thesis by auto
next
  case (WriteT t w)
  with assms show ?thesis by (auto simp: writeT_def)
next
  case (Free tag)
  with assms show ?thesis by auto
next
  case (Frame r)
  with assms show ?thesis by (auto simp: reader_err_sticky reader_writes)
next
  case (ReadErr e')
  with assms show ?thesis by (auto simp: reader_err_sticky reader_writes)
next
  case (CancelReserve tag cbp)
  with assms show ?thesis by (auto simp: cancel_reserve_def split: option.splits if_splits)
next
  case (CloseSink ch)
  with assms show ?thesis by auto
qed

lemma steps_with_err:
  "c_err c = Some e \<Longrightarrow> steps k c ss = Some c' \<Longrightarrow>
     c_err c' = Some e \<and> filter is_write (c_trace c') = filter is_write (c_trace c)"
proof (induction ss arbitrary: c)
  case Nil
  then show ?case by simp
next
  case (Cons s ss)
  from Cons.prems(2) obtain c1 where s1: "step_conn k c s = Some c1" and rest: "steps k c1 ss = Some c'"
    by (auto split: option.splits)
  from step_with_err [OF Cons.prems(1) s1] Cons.IH [OF _ rest] show ?case by simp
qed

lemma step_closed:
  assumes "c_closed c" and "step_conn k c s = Some c'"
  shows "c_closed c' \<and> filter is_read (c_trace c') = filter is_read (c_trace c)"
proof (cases s)
  case (WriteT t w)
  with assms show ?thesis
    by (auto simp: writeT_def emit_def split: option.splits write_outcome.splits)
next
  case (CancelReserve tag cbp)
  with assms show ?thesis by (auto simp: cancel_reserve_def split: option.splits if_splits)
qed (use assms in \<open>auto simp: reader_closed\<close>)

lemma steps_closed:
  "c_closed c \<Longrightarrow> steps k c ss = Some c' \<Longrightarrow>
     c_closed c' \<and> filter is_read (c_trace c') = filter is_read (c_trace c)"
proof (induction ss arbitrary: c)
  case Nil
  then show ?case by simp
next
  case (Cons s ss)
  from Cons.prems(2) obtain c1 where s1: "step_conn k c s = Some c1" and rest: "steps k c1 ss = Some c'"
    by (auto split: option.splits)
  from step_closed [OF Cons.prems(1) s1] Cons.IH [OF _ rest] show ?case by simp
qed

lemma read_error_ends_loop:
  "c_closed (readResponses k c (Inl e # rest))
   \<and> c_err (readResponses k c (Inl e # rest)) = (case c_err c of None \<Rightarrow> Some e | Some e' \<Rightarrow> Some e')"
  by (simp split: option.splits)

text \<open>
  C6, amended: once the sticky error of a connection is set it keeps its
  value along every schedule; no further frame is written (no write effect is
  added to the trace), and \<open>writeT\<close>, \<open>send\<close>, \<open>call\<close> and \<open>events\<close> started then
  fail at once with that error and leave the connection, and so the
  transport, untouched. Reading stops with the read loop: a read error ends
  the loop with the connection marked closed and the error kept, and on a
  closed connection no schedule adds a read. An error set by a failed write
  does not stop the read loop.
\<close>

theorem C6_sticky_error:
  assumes "c_err c = Some e"
  shows "writeT c t w = (c, Some e)
    \<and> send c t w = Some (c, t, Inl e)
    \<and> conn_call k c t w inb = Some (c, Inl e)
    \<and> events c t w = Some (c, Inl e)
    \<and> (\<forall>ss c'. steps k c ss = Some c' \<longrightarrow>
          c_err c' = Some e \<and> filter is_write (c_trace c') = filter is_write (c_trace c))
    \<and> (\<forall>e' rest. c_closed (readResponses k c (Inl e' # rest))
          \<and> c_err (readResponses k c (Inl e' # rest)) = Some e)
    \<and> (c_closed c \<longrightarrow> reader k c inb = c
          \<and> (\<forall>ss c'. steps k c ss = Some c' \<longrightarrow>
                filter is_read (c_trace c') = filter is_read (c_trace c)))"
proof -
  have 1: "writeT c t w = (c, Some e)" using assms by (rule writeT_err)
  have 2: "send c t w = Some (c, t, Inl e)" using assms by (rule send_err)
  have 3: "conn_call k c t w inb = Some (c, Inl e)" using 2 by (simp add: conn_call_def)
  have 4: "events c t w = Some (c, Inl e)" using 2 by (simp add: events_def)
  have 5: "\<forall>ss c'. steps k c ss = Some c' \<longrightarrow>
          c_err c' = Some e \<and> filter is_write (c_trace c') = filter is_write (c_trace c)"
    using steps_with_err [OF assms] by blast
  have 6: "\<forall>e' rest. c_closed (readResponses k c (Inl e' # rest))
          \<and> c_err (readResponses k c (Inl e' # rest)) = Some e"
    using assms by simp
  have 7: "c_closed c \<longrightarrow> reader k c inb = c
          \<and> (\<forall>ss c'. steps k c ss = Some c' \<longrightarrow>
                filter is_read (c_trace c') = filter is_read (c_trace c))"
    using steps_closed [of c k] by (auto simp: reader_closed)
  from 1 2 3 4 5 6 7 show ?thesis by blast
qed

theorem C6_sticky_error_witness:
  "c_err conn_werr = Some (Other ''reset'')
   \<and> send conn_werr (T_new SET) Written = Some (conn_werr, T_new SET, Inl (Other ''reset''))
   \<and> conn_call codes0 conn_werr (T_new SET) Written [Inr (frame 0 1)]
       = Some (conn_werr, Inl (Other ''reset''))
   \<and> events conn_werr (T_new WATCH) Written = Some (conn_werr, Inl (Other ''reset''))
   \<and> c_closed (readResponses codes0 conn_werr [Inl EOF, Inr (frame 0 1)])
   \<and> c_err (readResponses codes0 conn_werr [Inl EOF, Inr (frame 0 1)]) = Some (Other ''reset'')
   \<and> c_closed (readResponses codes0 conn_werr [Inl EOF])
   \<and> reader codes0 (readResponses codes0 conn_werr [Inl EOF]) [Inr (frame 0 1)]
       = readResponses codes0 conn_werr [Inl EOF]"
proof -
  have h: "c_err conn_werr = Some (Other ''reset'')" by (simp add: conn_werr_eq)
  have h2: "c_err (readResponses codes0 conn_werr [Inl EOF]) = Some (Other ''reset'')"
    using h by simp
  have cl: "c_closed (readResponses codes0 conn_werr [Inl EOF])" by simp
  from C6_sticky_error [OF h, of "T_new SET" Written codes0 "[Inr (frame 0 1)]"]
    C6_sticky_error [OF h, of "T_new WATCH" Written codes0 "[]"]
    C6_sticky_error [OF h2, of "T_new SET" Written codes0 "[Inr (frame 0 1)]"] h cl
  show ?thesis by blast
qed

section \<open>Streaming calls\<close>

lemma events_watch:
  "events (new_conn ''10.0.0.1:8046'') watch_req Written
     = Some (conn_watch, Inr \<lparr>W_cb = 0, W_tag = 0\<rparr>)"
  and conn_watch_fields:
  "c_cb conn_watch = [(0, Some 0)]" "c_closed conn_watch = False" "c_err conn_watch = None"
proof -
  have u: "unused_tag [] (0 :: int32) = Some 0" by (subst unused_tag.simps) simp
  have s: "send (new_conn ''10.0.0.1:8046'') watch_req Written
             = Some (emit [Wrote (watch_req\<lparr>T_Tag := Some 0\<rparr>)]
                       (registered (new_conn ''10.0.0.1:8046'') 0),
                     watch_req\<lparr>T_Tag := Some 0\<rparr>, Inr 0)"
    using send_Written [of "new_conn ''10.0.0.1:8046''" 0 watch_req] u
    by (simp add: new_conn_def)
  show "events (new_conn ''10.0.0.1:8046'') watch_req Written
     = Some (conn_watch, Inr \<lparr>W_cb = 0, W_tag = 0\<rparr>)"
    by (simp add: conn_watch_def events_def s)
  have cw: "conn_watch = emit [Wrote (watch_req\<lparr>T_Tag := Some 0\<rparr>)]
                           (registered (new_conn ''10.0.0.1:8046'') 0)"
    by (simp add: conn_watch_def events_def s)
  show "c_cb conn_watch = [(0, Some 0)]" "c_closed conn_watch = False" "c_err conn_watch = None"
    by (simp_all add: cw new_conn_def)
qed

lemma sink_log_closes:
  "ch \<in> set xs \<Longrightarrow> sink_log ch (map Close xs @ es) = ([], True)"
  by (induction xs) auto

lemma map_of_open_sink:
  "map_of tbl tag = Some (Some ch) \<Longrightarrow> ch \<in> set (open_sinks tbl)"
  by (auto simp: open_sinks_mem dest: map_of_SomeD)

lemma teardown_sink_log:
  assumes "map_of (c_cb c) tag = Some (Some ch)" and "\<not> c_closed c"
  shows "sink_log ch (new_effects c (reader k c (Inl e # rest))) = ([], True)"
  using assms sink_log_closes [OF map_of_open_sink [OF assms(1)], of "[Clear, Notify]"]
  by (simp add: reader_def new_effects_def)

lemma sink_log_skips:
  "ch \<notin> set xs \<Longrightarrow> sink_log ch (map Close xs @ es) = sink_log ch es"
  by (induction xs) auto

lemma teardown_sink_log_absent:
  assumes "ch \<notin> set (open_sinks (c_cb c))" and "\<not> c_closed c"
  shows "sink_log ch (new_effects c (reader k c (Inl e # rest))) = ([], False)"
  using assms sink_log_skips [OF assms(1), of "[Clear, Notify]"]
  by (simp add: reader_def new_effects_def)

lemma frame_sink_log:
  assumes "map_of (c_cb c) (GetInt32 (R_Tag r)) = Some (Some ch)"
    and "GetInt32 (R_Flags r) AND Valid \<noteq> 0"
  shows "sink_log ch (new_effects c (rr_frame k c r))
           = ([r], GetInt32 (R_Flags r) AND Done \<noteq> 0)"
  using assms
  by (simp add: new_effects_def rr_frame_def rr_table_def rr_deliver_def Let_def)

text \<open>
  C7, as stated, fails on teardown: the stream of \<open>conn_watch\<close> has its sink
  open when the read loop meets a read error; the sink is closed without a
  delivery and the output sequence closes with no event, so with no error
  event. It also fails for the error event being terminal: an error frame
  without the Done flag is republished and the output stays open, and a
  later frame follows it on the output.
\<close>

theorem C7_teardown_no_error_event_counterexample:
  "events (new_conn ''10.0.0.1:8046'') watch_req Written
     = Some (conn_watch, Inr \<lparr>W_cb = 0, W_tag = 0\<rparr>)
   \<and> events_forward codes0
        (sink_log 0 (new_effects conn_watch (reader codes0 conn_watch [Inl EOF])))
       = ([], True)
   \<and> events_forward codes0
        (sink_log 0 (new_effects conn_watch
           (reader codes0 conn_watch [Inr (err_frame 0 1 22), Inr (frame 0 1)])))
       = ([to_event codes0 (err_frame 0 1 22), to_event codes0 (frame 0 1)], False)
   \<and> Ev_Err (to_event codes0 (err_frame 0 1 22)) = Some ENOENT
   \<and> Ev_Err (to_event codes0 (frame 0 1)) = None"
proof -
  have a: "sink_log 0 (new_effects conn_watch (reader codes0 conn_watch [Inl EOF])) = ([], True)"
    by (rule teardown_sink_log [where tag = 0]) (simp_all add: conn_watch_fields)
  have g [simp]: "\<And>t f c. GetInt32 (R_Tag (err_frame t f c)) = t"
    "\<And>t f c. GetInt32 (R_Flags (err_frame t f c)) = f"
    "\<And>t f. GetInt32 (R_Tag (frame t f)) = t" "\<And>t f. GetInt32 (R_Flags (frame t f)) = f"
    by (simp_all add: err_frame_def frame_def GetInt32_def)
  have b: "sink_log 0 (new_effects conn_watch
           (reader codes0 conn_watch [Inr (err_frame 0 1 22), Inr (frame 0 1)]))
         = ([err_frame 0 1 22, frame 0 1], False)"
    by (simp add: reader_def conn_watch_fields new_effects_def rr_frame_def rr_table_def
        rr_deliver_def Let_def)
  have c: "Ev_Err (to_event codes0 (err_frame 0 1 22)) = Some ENOENT"
    "Ev_Err (to_event codes0 (frame 0 1)) = None"
    by (simp_all add: to_event_def R_err_def err_frame_def frame_def R0_def errs_def codes0_def)
  show ?thesis using a b c by (simp add: events_watch events_forward_def)
qed

text \<open>
  C7, amended: the forwarding task republishes every response delivered on
  the sink as one event, in order. A response that bears an error becomes an
  event that carries that error and nothing else; any other response becomes
  an event with its revision, path, value and flags. The output sequence is
  closed exactly when the sink is closed: after an error frame that has the
  Done flag, not after one without it. When the read loop ends on a read
  error while the tag of the stream is still open, that is while the table
  holds its sink, the sink is closed without a delivery and the output
  sequence closes without any event. When the table does not hold the sink
  at that moment (a \<open>cancel\<close> in flight has put the nil placeholder in its
  place), teardown does not touch the sink: no event is published and the
  output sequence is not closed by the teardown.
\<close>

theorem C7_stream_forwarding:
  "(\<forall>r e. R_err k (Some r) = Some e \<longrightarrow>
       to_event k r = \<lparr>Ev_Rev = 0, Ev_Path = [], Ev_Body = [], Ev_Flag = 0, Ev_Err = Some e\<rparr>)
   \<and> (\<forall>r. R_err k (Some r) = None \<longrightarrow>
       to_event k r = \<lparr>Ev_Rev = GetInt64 (R_Rev r), Ev_Path = GetString (R_Path r),
                        Ev_Body = R_Value r, Ev_Flag = GetInt32 (R_Flags r), Ev_Err = None\<rparr>)
   \<and> (\<forall>tr. events_forward k (sink_log ch tr)
             = (map (to_event k) (fst (sink_log ch tr)), snd (sink_log ch tr)))
   \<and> (\<forall>c r. map_of (c_cb c) (GetInt32 (R_Tag r)) = Some (Some ch)
          \<and> GetInt32 (R_Flags r) AND Valid \<noteq> 0 \<longrightarrow>
        events_forward k (sink_log ch (new_effects c (rr_frame k c r)))
          = ([to_event k r], GetInt32 (R_Flags r) AND Done \<noteq> 0))
   \<and> (\<forall>c tag e rest. map_of (c_cb c) tag = Some (Some ch) \<and> \<not> c_closed c \<longrightarrow>
        events_forward k (sink_log ch (new_effects c (reader k c (Inl e # rest)))) = ([], True))
   \<and> (\<forall>c e rest. ch \<notin> set (open_sinks (c_cb c)) \<and> \<not> c_closed c \<longrightarrow>
        events_forward k (sink_log ch (new_effects c (reader k c (Inl e # rest)))) = ([], False))"
proof (intro conjI allI impI)
  fix r e assume "R_err k (Some r) = Some e"
  then show "to_event k r
      = \<lparr>Ev_Rev = 0, Ev_Path = [], Ev_Body = [], Ev_Flag = 0, Ev_Err = Some e\<rparr>"
    by (simp add: to_event_def)
next
  fix r assume "R_err k (Some r) = None"
  then show "to_event k r = \<lparr>Ev_Rev = GetInt64 (R_Rev r), Ev_Path = GetString (R_Path r),
                        Ev_Body = R_Value r, Ev_Flag = GetInt32 (R_Flags r), Ev_Err = None\<rparr>"
    by (simp add: to_event_def)
next
  fix tr show "events_forward k (sink_log ch tr)
             = (map (to_event k) (fst (sink_log ch tr)), snd (sink_log ch tr))"
    by (simp add: events_forward_def)
next
  fix c :: conn and r :: R
  assume "map_of (c_cb c) (GetInt32 (R_Tag r)) = Some (Some ch)
          \<and> GetInt32 (R_Flags r) AND Valid \<noteq> 0"
  then show "events_forward k (sink_log ch (new_effects c (rr_frame k c r)))
          = ([to_event k r], GetInt32 (R_Flags r) AND Done \<noteq> 0)"
    by (simp add: frame_sink_log events_forward_def)
next
  fix c :: conn and tag e rest
  assume "map_of (c_cb c) tag = Some (Some ch) \<and> \<not> c_closed c"
  then have "sink_log ch (new_effects c (reader k c (Inl e # rest))) = ([], True)"
    using teardown_sink_log [of c tag ch k e rest] by blast
  then show "events_forward k (sink_log ch (new_effects c (reader k c (Inl e # rest))))
      = ([], True)"
    by (simp add: events_forward_def)
next
  fix c :: conn and e rest
  assume "ch \<notin> set (open_sinks (c_cb c)) \<and> \<not> c_closed c"
  then have "sink_log ch (new_effects c (reader k c (Inl e # rest))) = ([], False)"
    using teardown_sink_log_absent [of ch c k e rest] by blast
  then show "events_forward k (sink_log ch (new_effects c (reader k c (Inl e # rest))))
      = ([], False)"
    by (simp add: events_forward_def)
qed

theorem C7_stream_forwarding_witness:
  "R_err codes0 (Some (err_frame 0 3 22)) = Some ENOENT
   \<and> to_event codes0 (err_frame 0 3 22)
       = \<lparr>Ev_Rev = 0, Ev_Path = [], Ev_Body = [], Ev_Flag = 0, Ev_Err = Some ENOENT\<rparr>
   \<and> map_of (c_cb conn_watch) (GetInt32 (R_Tag (err_frame 0 3 22))) = Some (Some 0)
   \<and> GetInt32 (R_Flags (err_frame 0 3 22)) AND Valid \<noteq> 0
   \<and> events_forward codes0
        (sink_log 0 (new_effects conn_watch (rr_frame codes0 conn_watch (err_frame 0 3 22))))
       = ([\<lparr>Ev_Rev = 0, Ev_Path = [], Ev_Body = [], Ev_Flag = 0, Ev_Err = Some ENOENT\<rparr>], True)
   \<and> \<not> c_closed conn_watch
   \<and> events_forward codes0
        (sink_log 0 (new_effects conn_watch (reader codes0 conn_watch [Inl EOF])))
       = ([], True)
   \<and> cancel_reserve conn_watch 0 0 = Inr (reserved conn_watch 0)
   \<and> 0 \<notin> set (open_sinks (c_cb (reserved conn_watch 0)))
   \<and> \<not> c_closed (reserved conn_watch 0)
   \<and> events_forward codes0
        (sink_log 0 (new_effects (reserved conn_watch 0)
           (reader codes0 (reserved conn_watch 0) [Inl EOF])))
       = ([], False)"
proof -
  have e: "R_err codes0 (Some (err_frame 0 3 22)) = Some ENOENT"
    by (simp add: R_err_def err_frame_def frame_def R0_def errs_def codes0_def)
  have t: "map_of (c_cb conn_watch) (GetInt32 (R_Tag (err_frame 0 3 22))) = Some (Some 0)"
    by (simp add: conn_watch_fields err_frame_def frame_def GetInt32_def)
  have t0: "map_of (c_cb conn_watch) 0 = Some (Some 0)" by (simp add: conn_watch_fields)
  have f: "GetInt32 (R_Flags (err_frame 0 3 22)) = 3"
    by (simp add: err_frame_def frame_def GetInt32_def)
  have nc: "\<not> c_closed conn_watch" by (simp add: conn_watch_fields)
  note C = C7_stream_forwarding [of codes0 0]
  have a: "to_event codes0 (err_frame 0 3 22)
       = \<lparr>Ev_Rev = 0, Ev_Path = [], Ev_Body = [], Ev_Flag = 0, Ev_Err = Some ENOENT\<rparr>"
    using C [THEN conjunct1, rule_format, OF e] .
  have v: "GetInt32 (R_Flags (err_frame 0 3 22)) AND Valid \<noteq> 0" by (simp add: f)
  have b: "events_forward codes0
        (sink_log 0 (new_effects conn_watch (rr_frame codes0 conn_watch (err_frame 0 3 22))))
       = ([to_event codes0 (err_frame 0 3 22)],
          GetInt32 (R_Flags (err_frame 0 3 22)) AND Done \<noteq> 0)"
    using C [THEN conjunct2, THEN conjunct2, THEN conjunct2, THEN conjunct1, rule_format,
        of conn_watch "err_frame 0 3 22"] t v by blast
  have c: "events_forward codes0
        (sink_log 0 (new_effects conn_watch (reader codes0 conn_watch [Inl EOF])))
       = ([], True)"
    using C [THEN conjunct2, THEN conjunct2, THEN conjunct2, THEN conjunct2, THEN conjunct1,
        rule_format, of conn_watch 0 EOF "[]"] t0 nc by blast
  have r: "cancel_reserve conn_watch 0 0 = Inr (reserved conn_watch 0)"
    using t0 by (simp add: cancel_reserve_def)
  have o: "0 \<notin> set (open_sinks (c_cb (reserved conn_watch 0)))"
    by (simp add: conn_watch_fields)
  have nc': "\<not> c_closed (reserved conn_watch 0)" by (simp add: conn_watch_fields)
  have d: "events_forward codes0
        (sink_log 0 (new_effects (reserved conn_watch 0)
           (reader codes0 (reserved conn_watch 0) [Inl EOF])))
       = ([], False)"
    using C [THEN conjunct2, THEN conjunct2, THEN conjunct2, THEN conjunct2, THEN conjunct2,
        rule_format, of "reserved conn_watch 0" EOF "[]"] o nc' by blast
  show ?thesis using e a t v b c nc r o nc' d by (simp add: f)
qed

section \<open>Cancellation\<close>

lemma rr_frame_cb:
  "c_cb (rr_frame k c r) =
     (if map_of (c_cb c) (GetInt32 (R_Tag r)) \<noteq> Some None \<and> GetInt32 (R_Flags r) AND Done \<noteq> 0
      then AList.delete (GetInt32 (R_Tag r)) (c_cb c) else c_cb c)"
  by (simp add: rr_frame_def rr_table_def rr_deliver_def Let_def split: option.splits)

lemma retired_rr_frame: "retired tag c \<Longrightarrow> retired tag (rr_frame k c r)"
  by (auto simp: retired_def rr_frame_cb delete_conv')

lemma retired_reader: "retired tag c \<Longrightarrow> retired tag (reader k c inb)"
proof -
  have "retired tag c \<Longrightarrow> retired tag (readResponses k c inb)" for c
  proof (induction inb arbitrary: c)
    case Nil
    then show ?case by simp
  next
    case (Cons x inb)
    show ?case
    proof (cases x)
      case (Inl e)
      then show ?thesis by (simp add: retired_def)
    next
      case (Inr r)
      with Cons retired_rr_frame show ?thesis by simp
    qed
  qed
  then show "retired tag c \<Longrightarrow> retired tag (reader k c inb)" by (simp add: reader_def)
qed

lemma send_cb_cases:
  assumes "send c t w = Some (c', t', res)"
  shows "(c' = c \<and> (\<exists>e. res = Inl e))
       \<or> (\<exists>tag'. map_of (c_cb c) tag' = None \<and> T_Tag t' = Some tag'
             \<and> c_closed c' = c_closed c
             \<and> (c_cb c' = c_cb c \<and> (\<exists>e. res = Inl e)
                \<or> c_cb c' = AList.update tag' (Some (c_fresh c)) (c_cb c) \<and> res = Inr (c_fresh c)))"
proof (cases "c_err c")
  case (Some e)
  with assms show ?thesis by (auto simp: send_def)
next
  case None
  with assms obtain tag' where tag: "unused_tag (c_cb c) (c_n c) = Some tag'"
    by (auto simp: send_def split: option.splits)
  note free = unused_tag_free [OF tag]
  show ?thesis
  proof (cases w)
    case (MarshalFails m)
    with assms send_MarshalFails [OF None tag, of t m] free show ?thesis by auto
  next
    case (PrefixFails m)
    with assms send_write_fails [OF None tag, of w m t] free show ?thesis by auto
  next
    case (BodyFails m)
    with assms send_write_fails [OF None tag, of w m t] free show ?thesis by auto
  next
    case Written
    with assms send_Written [OF None tag, of t] free show ?thesis by auto
  qed
qed

lemma retired_send:
  assumes "retired tag c" and "send c t w = Some (c', t', res)"
  shows "retired tag c' \<and> (\<forall>ch. res = Inr ch \<longrightarrow> T_Tag t' \<noteq> Some tag)"
proof (cases "c_err c")
  case (Some e)
  with assms show ?thesis by (auto simp: send_def)
next
  case None
  with assms(1) have m: "map_of (c_cb c) tag = Some None" by (auto simp: retired_def)
  from send_cb_cases [OF assms(2)] consider
      (same) "c' = c" "\<exists>e. res = Inl e"
    | (alloc) tag' where "map_of (c_cb c) tag' = None" "T_Tag t' = Some tag'"
        "c_cb c' = c_cb c \<or> c_cb c' = AList.update tag' (Some (c_fresh c)) (c_cb c)"
    by blast
  then show ?thesis
  proof cases
    case same
    with assms(1) show ?thesis by auto
  next
    case alloc
    from alloc(1) m have ne: "tag' \<noteq> tag" by auto
    from alloc(3) have "map_of (c_cb c') tag = Some None"
      using m ne by (auto simp: update_conv')
    with ne alloc(2) show ?thesis by (simp add: retired_def)
  qed
qed

lemma retired_conn_call:
  assumes "retired tag c" and "conn_call k c t w inb = Some (c', res)"
  shows "retired tag c'"
proof -
  from assms(2) obtain c1 t1 r1 where s: "send c t w = Some (c1, t1, r1)"
    by (auto simp: conn_call_def split: option.splits)
  from retired_send [OF assms(1) s] have r1: "retired tag c1" by simp
  show ?thesis
  proof (cases r1)
    case (Inl e)
    with assms(2) s r1 show ?thesis by (simp add: conn_call_def)
  next
    case (Inr ch)
    with assms(2) s have "c' = reader k c1 inb"
      by (auto simp: conn_call_def Let_def split: option.splits)
    with r1 show ?thesis by (simp add: retired_reader)
  qed
qed

lemma retired_released: "retired tag c \<Longrightarrow> tag' \<noteq> tag \<Longrightarrow> retired tag (released c tag')"
  by (auto simp: retired_def delete_conv')

lemma retired_cancel:
  assumes "retired tag c" and "cancel k c tag' cbp w inb = Some (c', res)"
  shows "retired tag c'"
proof (cases "cancel_reserve c tag' cbp")
  case (Inl e)
  with assms show ?thesis by (simp add: cancel_def)
next
  case (Inr c1)
  then have c1: "c1 = reserved c tag'" and m': "map_of (c_cb c) tag' = Some (Some cbp)"
    by (auto simp: cancel_reserve_def split: option.splits if_splits)
  from m' assms(1) have ne: "tag' \<noteq> tag" and m: "map_of (c_cb c) tag = Some None"
    by (auto simp: retired_def)
  have r1: "retired tag c1" using m ne by (simp add: c1 retired_def update_conv')
  from assms(2) Inr obtain c2 r2
    where call: "conn_call k c1 ((T_new CANCEL)\<lparr>T_OtherTag := Some tag'\<rparr>) w inb = Some (c2, r2)"
    by (auto simp: cancel_def split: option.splits)
  from retired_conn_call [OF r1 call] have r2: "retired tag c2" .
  show ?thesis
  proof (cases r2)
    case (Inl e)
    with assms(2) Inr call r2 show ?thesis by (simp add: cancel_def)
  next
    case Inr': (Inr rr)
    with assms(2) Inr call have "c' = emit [Close cbp] (released c2 tag')" by (simp add: cancel_def)
    with retired_released [OF r2 ne] show ?thesis by (simp add: retired_def)
  qed
qed

lemma retired_do_ops: "retired tag c \<Longrightarrow> do_ops k c ops = Some c' \<Longrightarrow> retired tag c'"
proof (induction ops arbitrary: c)
  case Nil
  then show ?case by simp
next
  case (Cons x ops)
  from Cons.prems(2) obtain c1 where x: "do_op k c x = Some c1" and rest: "do_ops k c1 ops = Some c'"
    by (auto split: option.splits)
  have "retired tag c1"
  proof (cases x)
    case (DoSend t w)
    with x obtain t' res where "send c t w = Some (c1, t', res)" by auto
    from retired_send [OF Cons.prems(1) this] show ?thesis by simp
  next
    case (DoRead inb)
    with x Cons.prems(1) show ?thesis by (auto simp: retired_reader)
  next
    case (DoCancel tag' cbp w inb)
    with x obtain res where "cancel k c tag' cbp w inb = Some (c1, res)" by auto
    from retired_cancel [OF Cons.prems(1) this] show ?thesis .
  qed
  from Cons.IH [OF this rest] show ?case .
qed

lemma unused_tag_here: "map_of tbl i = None \<Longrightarrow> unused_tag tbl i = Some i"
  by (subst unused_tag.simps) simp

lemma unused_tag_next: "map_of tbl i = Some e \<Longrightarrow> unused_tag tbl i = unused_tag tbl (i + 1)"
  by (subst unused_tag.simps) simp

lemma conn_watch_eq:
  "conn_watch = \<lparr>c_addr = ''10.0.0.1:8046'', c_err = None, c_n = 0, c_cb = [(0, Some 0)],
                  c_redirectAddr = [], c_redirected = False, c_closed = False,
                  c_trace = [Register 0 0, Wrote (watch_req\<lparr>T_Tag := Some 0\<rparr>)],
                  c_fresh = Suc 0\<rparr>"
  by (simp add: conn_watch_def events_def send_def unused_tag_here new_conn_def registered_def
      writeT_def emit_def Let_def)

lemmas run_defs =
  cancel_def cancel_reserve_def conn_call_def send_def registered_def reserved_def released_def
  writeT_def emit_def reader_def rr_frame_def rr_redirect_def rr_table_def rr_deliver_def
  conn_close_def call_result_def R_err_def errs_def frame_def err_frame_def R0_def codes0_def
  GetInt32_def GetString_def Done_def Valid_def Let_def T_new_def

text \<open>
  C2, as stated, fails in its last part: when the CANCEL call fails because
  the connection is torn down (the read loop meets end of file while the
  call waits), \<open>cancel\<close> returns the error and the table holds no placeholder
  for the tag any more: teardown has dropped the whole table.
\<close>

theorem C2_placeholder_dropped_by_teardown_counterexample:
  "map_of (c_cb conn_watch) 0 = Some (Some 0)
   \<and> cancel codes0 conn_watch 0 0 Written [Inl EOF] \<noteq> None
   \<and> snd (the (cancel codes0 conn_watch 0 0 Written [Inl EOF])) = Some EOF
   \<and> map_of (c_cb (fst (the (cancel codes0 conn_watch 0 0 Written [Inl EOF])))) 0 = None"
  by (simp add: conn_watch_eq run_defs unused_tag_here unused_tag_next [where e = None])

lemma cancel_bad_tag:
  "map_of (c_cb c) tag \<noteq> Some (Some cbp) \<Longrightarrow>
     cancel k c tag cbp w inb = Some (c, Some ErrBadTag)"
  by (auto simp: cancel_def cancel_reserve_def split: option.splits)

lemma cancel_open_tag:
  assumes "map_of (c_cb c) tag = Some (Some cbp)"
    and "cancel k c tag cbp w inb = Some (c', res)"
  shows "\<exists>c2 r. conn_call k (reserved c tag) ((T_new CANCEL)\<lparr>T_OtherTag := Some tag\<rparr>) w inb
                  = Some (c2, r)
           \<and> (case r of
                 Inr rr \<Rightarrow> res = None \<and> c' = emit [Close cbp] (released c2 tag)
               | Inl e \<Rightarrow> res = Some e \<and> c' = c2)"
proof -
  have cr: "cancel_reserve c tag cbp = Inr (reserved c tag)"
    using assms(1) by (simp add: cancel_reserve_def)
  let ?t = "(T_new CANCEL)\<lparr>T_OtherTag := Some tag\<rparr>"
  from assms(2) cr obtain c2 r where call: "conn_call k (reserved c tag) ?t w inb = Some (c2, r)"
    by (auto simp: cancel_def split: option.splits)
  have "case r of
          Inr rr \<Rightarrow> res = None \<and> c' = emit [Close cbp] (released c2 tag)
        | Inl e \<Rightarrow> res = Some e \<and> c' = c2"
    using assms(2) cr call by (cases r) (auto simp: cancel_def)
  with call show ?thesis by blast
qed

text \<open>
  C2, amended: \<open>cancel\<close> on a tag that is not open with exactly the expected
  sink (absent, nil placeholder, or another sink) returns the bad tag error
  and changes nothing. On a matching open tag it stores the placeholder and
  makes a unary CANCEL call with \<open>OtherTag\<close> set to the tag. If the call
  succeeds, \<open>cancel\<close> removes the entry, closes the original sink and returns
  no error. If the call fails, \<open>cancel\<close> returns its error and does not remove
  the placeholder: the tag stays retired (nil entry, or the table dropped by
  teardown with the sticky error set) through every later \<open>send\<close>, \<open>cancel\<close> and
  turn of the read loop, and no later \<open>send\<close> on this connection returns that tag.
\<close>

theorem C2_cancel:
  "(map_of (c_cb c) tag \<noteq> Some (Some cbp) \<longrightarrow>
      cancel k c tag cbp w inb = Some (c, Some ErrBadTag))
   \<and> (map_of (c_cb c) tag = Some (Some cbp) \<longrightarrow>
      map_of (c_cb (reserved c tag)) tag = Some None
      \<and> (\<forall>c' res. cancel k c tag cbp w inb = Some (c', res) \<longrightarrow>
           (\<exists>c2 r. conn_call k (reserved c tag) ((T_new CANCEL)\<lparr>T_OtherTag := Some tag\<rparr>) w inb
                      = Some (c2, r)
              \<and> (case r of
                    Inr rr \<Rightarrow>
                      res = None \<and> map_of (c_cb c') tag = None
                      \<and> c_trace c' = c_trace c2 @ [Release tag, Close cbp]
                  | Inl e \<Rightarrow>
                      res = Some e \<and> c' = c2 \<and> retired tag c'
                      \<and> (\<forall>ops c3. do_ops k c' ops = Some c3 \<longrightarrow>
                            retired tag c3
                            \<and> (\<forall>t w' c4 t' ch. send c3 t w' = Some (c4, t', Inr ch) \<longrightarrow>
                                  T_Tag t' \<noteq> Some tag))))))"
proof (intro conjI impI allI)
  assume "map_of (c_cb c) tag \<noteq> Some (Some cbp)"
  then show "cancel k c tag cbp w inb = Some (c, Some ErrBadTag)" by (rule cancel_bad_tag)
next
  assume "map_of (c_cb c) tag = Some (Some cbp)"
  show "map_of (c_cb (reserved c tag)) tag = Some None" by (simp add: update_conv')
next
  fix c' res
  assume op: "map_of (c_cb c) tag = Some (Some cbp)"
    and run: "cancel k c tag cbp w inb = Some (c', res)"
  let ?t = "(T_new CANCEL)\<lparr>T_OtherTag := Some tag\<rparr>"
  from cancel_open_tag [OF op run] obtain c2 r
    where call: "conn_call k (reserved c tag) ?t w inb = Some (c2, r)"
      and r: "case r of Inr rr \<Rightarrow> res = None \<and> c' = emit [Close cbp] (released c2 tag)
                | Inl e \<Rightarrow> res = Some e \<and> c' = c2"
    by blast
  have r1: "retired tag (reserved c tag)" by (simp add: retired_def update_conv')
  have r2: "retired tag c2" using retired_conn_call [OF r1 call] .
  have "case r of
          Inr rr \<Rightarrow>
            res = None \<and> map_of (c_cb c') tag = None
            \<and> c_trace c' = c_trace c2 @ [Release tag, Close cbp]
        | Inl e \<Rightarrow>
            res = Some e \<and> c' = c2 \<and> retired tag c'
            \<and> (\<forall>ops c3. do_ops k c' ops = Some c3 \<longrightarrow>
                  retired tag c3
                  \<and> (\<forall>t w' c4 t' ch. send c3 t w' = Some (c4, t', Inr ch) \<longrightarrow>
                        T_Tag t' \<noteq> Some tag))"
  proof (cases r)
    case (Inr rr)
    with r show ?thesis by (simp add: delete_conv')
  next
    case (Inl e)
    with r have c': "c' = c2" and res: "res = Some e" by simp_all
    have later: "\<forall>ops c3. do_ops k c' ops = Some c3 \<longrightarrow>
                  retired tag c3
                  \<and> (\<forall>t w' c4 t' ch. send c3 t w' = Some (c4, t', Inr ch) \<longrightarrow>
                        T_Tag t' \<noteq> Some tag)"
    proof (intro allI impI)
      fix ops c3 assume "do_ops k c' ops = Some c3"
      from retired_do_ops [OF r2 [folded c'] this] have r3: "retired tag c3" .
      then show "retired tag c3
                  \<and> (\<forall>t w' c4 t' ch. send c3 t w' = Some (c4, t', Inr ch) \<longrightarrow>
                        T_Tag t' \<noteq> Some tag)"
        using retired_send [OF r3] by blast
    qed
    with Inl c' res r2 show ?thesis by simp
  qed
  with call show "\<exists>c2 r. conn_call k (reserved c tag) ?t w inb = Some (c2, r)
              \<and> (case r of
                    Inr rr \<Rightarrow>
                      res = None \<and> map_of (c_cb c') tag = None
                      \<and> c_trace c' = c_trace c2 @ [Release tag, Close cbp]
                  | Inl e \<Rightarrow>
                      res = Some e \<and> c' = c2 \<and> retired tag c'
                      \<and> (\<forall>ops c3. do_ops k c' ops = Some c3 \<longrightarrow>
                            retired tag c3
                            \<and> (\<forall>t w' c4 t' ch. send c3 t w' = Some (c4, t', Inr ch) \<longrightarrow>
                                  T_Tag t' \<noteq> Some tag)))"
    by blast
qed

theorem C2_cancel_witness:
  "map_of (c_cb conn_watch) 5 \<noteq> Some (Some 0)
   \<and> cancel codes0 conn_watch 5 0 Written [] = Some (conn_watch, Some ErrBadTag)
   \<and> map_of (c_cb conn_watch) 0 = Some (Some 0)
   \<and> snd (the (cancel codes0 conn_watch 0 0 Written [Inr (frame 1 3)])) = None
   \<and> map_of (c_cb (fst (the (cancel codes0 conn_watch 0 0 Written [Inr (frame 1 3)])))) 0 = None
   \<and> snd (the (cancel codes0 conn_watch 0 0 Written [Inr (err_frame 1 3 99)]))
       = Some (Error 99 [])
   \<and> map_of (c_cb (fst (the (cancel codes0 conn_watch 0 0 Written [Inr (err_frame 1 3 99)])))) 0
       = Some None
   \<and> retired 0 (fst (the (cancel codes0 conn_watch 0 0 Written [Inr (err_frame 1 3 99)])))"
proof -
  note ev = conn_watch_eq run_defs unused_tag_here unused_tag_next [where e = None]
  have bad: "map_of (c_cb conn_watch) 5 \<noteq> Some (Some 0)" by (simp add: conn_watch_eq)
  have op: "map_of (c_cb conn_watch) 0 = Some (Some 0)" by (simp add: conn_watch_eq)
  have 1: "cancel codes0 conn_watch 5 0 Written [] = Some (conn_watch, Some ErrBadTag)"
    using C2_cancel [of conn_watch 5 0 codes0 Written "[]"] bad by blast
  have ok: "\<exists>c'. cancel codes0 conn_watch 0 0 Written [Inr (frame 1 3)] = Some (c', None)"
    by (simp add: ev)
  then obtain c1 where ok1: "cancel codes0 conn_watch 0 0 Written [Inr (frame 1 3)] = Some (c1, None)"
    by blast
  from C2_cancel [of conn_watch 0 0 codes0 Written "[Inr (frame 1 3)]"] op ok1
  obtain r where "case r of
                    Inr rr \<Rightarrow> (None :: os_error option) = None \<and> map_of (c_cb c1) 0 = None
                  | Inl e \<Rightarrow> None = Some e"
    by (fastforce split: sum.splits)
  then have 2: "map_of (c_cb c1) 0 = None" by (cases r) simp_all
  have fl: "\<exists>c'. cancel codes0 conn_watch 0 0 Written [Inr (err_frame 1 3 99)]
                   = Some (c', Some (Error 99 [])) \<and> map_of (c_cb c') 0 = Some None"
    by (simp add: ev)
  then obtain c2 where fl1: "cancel codes0 conn_watch 0 0 Written [Inr (err_frame 1 3 99)]
                   = Some (c2, Some (Error 99 []))" and pl: "map_of (c_cb c2) 0 = Some None"
    by blast
  from C2_cancel [of conn_watch 0 0 codes0 Written "[Inr (err_frame 1 3 99)]"] op fl1
  obtain r' where "case r' of
                    Inr rr \<Rightarrow> Some (Error 99 []) = (None :: os_error option)
                  | Inl e \<Rightarrow> retired 0 c2"
    by (fastforce split: sum.splits)
  then have 3: "retired 0 c2" by (cases r') simp_all
  show ?thesis using bad op 1 2 3 ok1 fl1 pl by simp
qed

section \<open>The cluster session\<close>

lemma connect_all_fail:
  "\<forall>x \<in> fst ` set a. net x \<noteq> None \<Longrightarrow> connect net pick a = ([], None)"
proof (induction net pick a rule: connect.induct)
  case (1 net pick a)
  show ?case
  proof (cases "length a > 0")
    case False
    then show ?thesis by (subst connect.simps) simp
  next
    case True
    let ?addr = "fst (a ! (pick a mod length a))"
    have mem: "?addr \<in> fst ` set a" using True by simp
    with "1.prems" obtain e where e: "net ?addr = Some e" by auto
    then have d: "dial net ?addr = Inl e" by (simp add: dial_def)
    have sub: "\<forall>x \<in> fst ` set (AList.delete ?addr a). net x \<noteq> None"
      using "1.prems" dom_delete_subset [of ?addr a] by blast
    have "connect net pick a = connect net pick (AList.delete ?addr a)"
      using True d by (subst connect.simps) simp
    also have "\<dots> = ([], None)" using "1.IH" [OF True d sub] .
    finally show ?thesis .
  qed
qed

lemma run_steps_Stopped: "run_steps net pick Stopped rqs = Stopped"
proof (induction rqs)
  case Nil
  then show ?case by simp
next
  case (Cons rq rqs)
  then show ?case by (cases rq) simp_all
qed

lemma fetch_Stopped: "fetch net pick Stopped = None"
  by (simp add: fetch_def)

text \<open>
  C8: when every address of the pool fails to dial, \<open>connect\<close> empties the pool
  and returns nil, so \<open>run\<close> returns: at start, and on the closure of the
  current connection. From then on the session stays stopped whatever
  requests follow, under any network; a request to add an address is never
  served. Every caller receives nil from \<open>cl.c\<close>, and \<open>call\<close>, \<open>retry\<close>, \<open>Watch\<close>,
  \<open>Walk\<close> and \<open>Getdir\<close> return the no known address error.
\<close>

theorem C8_pool_exhausted_is_final:
  assumes "\<forall>x \<in> fst ` set a. net x \<noteq> None"
  shows "connect net pick a = ([], None)
    \<and> run_connect net pick a = Stopped
    \<and> (\<forall>a0 c. AList.delete (c_addr c) a0 = a \<longrightarrow>
          run_step net pick (Running a0 c) ConnClosed = (Stopped, Ack))
    \<and> (\<forall>net' pick' rqs. run_steps net' pick' (run_connect net pick a) rqs = Stopped)
    \<and> (\<forall>net' pick' x. run_step net' pick' (run_connect net pick a) (Add x) = (Stopped, Blocked))
    \<and> (\<forall>net' pick' rqs t w inb xs aw ai glob frm rv offset limit path off lim.
          fetch net' pick' (run_steps net' pick' (run_connect net pick a) rqs) = None
        \<and> Client_call k (fetch net' pick' (run_steps net' pick' (run_connect net pick a) rqs))
              t w inb = Some (Inl ErrNoAddrs)
        \<and> retry k t (\<lparr>a_conn = fetch net' pick'
                                    (run_steps net' pick' (run_connect net pick a) rqs),
                        a_write = aw, a_inbound = ai\<rparr> # xs) = Some (Inl ErrNoAddrs)
        \<and> Client_Watch (fetch net' pick' (run_steps net' pick' (run_connect net pick a) rqs))
              glob frm w = Some (Inl ErrNoAddrs)
        \<and> Client_Walk (fetch net' pick' (run_steps net' pick' (run_connect net pick a) rqs))
              glob rv offset limit w = Some (Inl ErrNoAddrs)
        \<and> Client_Getdir (fetch net' pick' (run_steps net' pick' (run_connect net pick a) rqs))
              path off lim rv w = Some (Inl ErrNoAddrs))"
proof -
  have c: "connect net pick a = ([], None)" using assms by (rule connect_all_fail)
  then have s: "run_connect net pick a = Stopped" by (simp add: run_connect_def)
  have m: "\<forall>a0 c. AList.delete (c_addr c) a0 = a \<longrightarrow>
          run_step net pick (Running a0 c) ConnClosed = (Stopped, Ack)"
    using s by auto
  show ?thesis
    unfolding s
    using c m
    by (simp add: run_steps_Stopped fetch_Stopped Client_call_def Client_Watch_def
        Client_Walk_def Client_Getdir_def)
qed

theorem C8_pool_exhausted_is_final_witness:
  "net_down ''10.0.0.1:8046'' = Some (Other ''connection refused'')
   \<and> New net_down pick_first ''10.0.0.1:8046'' = Stopped
   \<and> run_steps (\<lambda>x. None) pick_first (New net_down pick_first ''10.0.0.1:8046'')
        [Add ''10.0.0.2:8046'', GetConn] = Stopped
   \<and> Client_call codes0
        (fetch (\<lambda>x. None) pick_first
           (run_steps (\<lambda>x. None) pick_first (New net_down pick_first ''10.0.0.1:8046'')
              [Add ''10.0.0.2:8046'']))
        (T_new NOP) Written [] = Some (Inl ErrNoAddrs)"
proof -
  have h: "\<forall>x \<in> fst ` set [(''10.0.0.1:8046'', True)]. net_down x \<noteq> None"
    by (simp add: net_down_def)
  note C = C8_pool_exhausted_is_final [OF h, of pick_first codes0]
  have 1: "run_connect net_down pick_first [(''10.0.0.1:8046'', True)] = Stopped"
    by (rule C [THEN conjunct2, THEN conjunct1])
  have 2: "run_steps (\<lambda>x. None) pick_first
             (run_connect net_down pick_first [(''10.0.0.1:8046'', True)])
             [Add ''10.0.0.2:8046'', GetConn] = Stopped"
    by (rule C [THEN conjunct2, THEN conjunct2, THEN conjunct2, THEN conjunct1, rule_format])
  have 3: "Client_call codes0
        (fetch (\<lambda>x. None) pick_first
           (run_steps (\<lambda>x. None) pick_first
              (run_connect net_down pick_first [(''10.0.0.1:8046'', True)])
              [Add ''10.0.0.2:8046'']))
        (T_new NOP) Written [] = Some (Inl ErrNoAddrs)"
    by (rule C [THEN conjunct2, THEN conjunct2, THEN conjunct2, THEN conjunct2, THEN conjunct2,
          rule_format, THEN conjunct2, THEN conjunct1])
  have 0: "net_down ''10.0.0.1:8046'' = Some (Other ''connection refused'')"
    by (simp add: net_down_def)
  show ?thesis using 0 1 2 3 unfolding New_def by (intro conjI)
qed

section \<open>Retry\<close>

lemma errs_range:
  "errs k c = Some e \<Longrightarrow> e \<in> {ENOTDIR, EISDIR, ENOENT, ErrOldRev, TooLate}"
  by (auto simp: errs_def split: if_splits)

lemma call_result_not_ErrNoAddrs: "call_result k ro \<noteq> Inl ErrNoAddrs"
  by (auto simp: call_result_def R_err_def split: option.splits dest: errs_range)

lemma send_not_ErrNoAddrs:
  assumes "send c t w = Some (c', t', Inl ErrNoAddrs)"
  shows "c_err c' \<noteq> None"
proof (cases "c_err c")
  case (Some e)
  with assms show ?thesis by (auto simp: send_def)
next
  case None
  with assms obtain tag where tag: "unused_tag (c_cb c) (c_n c) = Some tag"
    by (auto simp: send_def split: option.splits)
  show ?thesis
  proof (cases w)
    case (MarshalFails m)
    with assms send_MarshalFails [OF None tag, of t m] show ?thesis by simp
  next
    case (PrefixFails m)
    with assms send_write_fails [OF None tag, of w m t] show ?thesis by simp
  next
    case (BodyFails m)
    with assms send_write_fails [OF None tag, of w m t] show ?thesis by simp
  next
    case Written
    with assms send_Written [OF None tag, of t] show ?thesis by simp
  qed
qed

lemma conn_call_not_ErrNoAddrs:
  assumes "conn_call k c t w inb = Some (c', Inl ErrNoAddrs)"
  shows "c_err c' \<noteq> None"
proof -
  from assms obtain c1 t1 r1 where s: "send c t w = Some (c1, t1, r1)"
    by (auto simp: conn_call_def split: option.splits)
  show ?thesis
  proof (cases r1)
    case (Inl e)
    with assms s have "c' = c1" "e = ErrNoAddrs" by (simp_all add: conn_call_def)
    with s Inl send_not_ErrNoAddrs show ?thesis by blast
  next
    case (Inr ch)
    with assms s show ?thesis
      by (auto simp: conn_call_def Let_def call_result_not_ErrNoAddrs split: option.splits)
  qed
qed

lemma retry_lost: "lost k t x \<Longrightarrow> retry k t (x # xs) = retry k t xs"
  by (auto simp: lost_def split: option.splits)

lemma retry_lost_prefix: "\<forall>y \<in> set pre. lost k t y \<Longrightarrow> retry k t (pre @ xs) = retry k t xs"
  by (induction pre) (simp_all add: retry_lost del: retry.simps)

lemma retry_ErrNoAddrs:
  "retry k t xs = Some (Inl ErrNoAddrs) \<Longrightarrow>
     \<exists>pre x post. xs = pre @ x # post \<and> a_conn x = None \<and> (\<forall>y \<in> set pre. lost k t y)"
proof (induction xs)
  case Nil
  then show ?case by simp
next
  case (Cons x xs)
  show ?case
  proof (cases "a_conn x")
    case None
    then have "x # xs = [] @ x # xs \<and> a_conn x = None \<and> (\<forall>y \<in> set []. lost k t y)" by simp
    then show ?thesis by blast
  next
    case (Some c)
    with Cons.prems obtain c' res
      where call: "conn_call k c t (a_write x) (a_inbound x) = Some (c', res)"
      by (auto split: option.splits)
    show ?thesis
    proof (cases "c_err c' = None")
      case True
      with Cons.prems Some call have "res = Inl ErrNoAddrs" by simp
      with call conn_call_not_ErrNoAddrs True show ?thesis by blast
    next
      case False
      with Some call have l: "lost k t x" by (simp add: lost_def)
      with Cons.prems have "retry k t xs = Some (Inl ErrNoAddrs)"
        by (simp add: retry_lost del: retry.simps)
      from Cons.IH [OF this] obtain pre y post
        where "xs = pre @ y # post" "a_conn y = None" "\<forall>z \<in> set pre. lost k t z" by blast
      with l have "x # xs = (x # pre) @ y # post \<and> a_conn y = None
                     \<and> (\<forall>z \<in> set (x # pre). lost k t z)" by simp
      then show ?thesis by blast
    qed
  qed
qed

lemma readResponses_read_error:
  "Inl e \<in> set inb \<Longrightarrow> c_err (readResponses k c inb) \<noteq> None"
proof (induction inb arbitrary: c)
  case Nil
  then show ?case by simp
next
  case (Cons x inb)
  then show ?case by (cases x) auto
qed

lemma conn_call_connection_lost:
  assumes "conn_call k c t w inb = Some (c', res)"
    and "\<not> c_closed c" and "Inl e \<in> set inb" and "w = Written"
  shows "c_err c' \<noteq> None"
proof -
  from assms(1) obtain c1 t1 r1 where s: "send c t w = Some (c1, t1, r1)"
    by (auto simp: conn_call_def split: option.splits)
  show ?thesis
  proof (cases r1)
    case (Inl e')
    with assms(1) s have c': "c' = c1" by (simp add: conn_call_def)
    from s Inl assms(4) have "c_err c \<noteq> None"
      by (auto simp: send_def writeT_def Let_def split: option.splits)
    with s c' show ?thesis by (auto simp: send_def)
  next
    case (Inr ch)
    with assms(1) s have c': "c' = reader k c1 inb"
      by (auto simp: conn_call_def Let_def split: option.splits)
    from send_cb_cases [OF s] Inr assms(2) have "\<not> c_closed c1" by auto
    with c' readResponses_read_error [OF assms(3)] show ?thesis by (simp add: reader_def)
  qed
qed

text \<open>
  C9: \<open>retry\<close> returns the no known address error only when some attempt
  received nil from \<open>cl.c\<close>, every attempt before it having been lost; and it
  does return it then. An attempt whose connection has a sticky error when
  the call returns is discarded, whatever the call returned, and the request
  is issued again on the next connection fetched: after any number of lost
  attempts the result of \<open>retry\<close> is the result of the first attempt on a
  connection without sticky error. An attempt whose connection is lost while
  the call waits (the read loop meets a read error) is such a lost attempt.
\<close>

theorem C9_retry:
  "(retry k t xs = Some (Inl ErrNoAddrs) \<longrightarrow>
      (\<exists>pre x post. xs = pre @ x # post \<and> a_conn x = None \<and> (\<forall>y \<in> set pre. lost k t y)))
   \<and> (\<forall>pre x post. (\<forall>y \<in> set pre. lost k t y) \<and> a_conn x = None \<longrightarrow>
         retry k t (pre @ x # post) = Some (Inl ErrNoAddrs))
   \<and> (\<forall>x. lost k t x \<longrightarrow> retry k t (x # xs) = retry k t xs)
   \<and> (\<forall>pre x post c c' res.
         (\<forall>y \<in> set pre. lost k t y) \<and> a_conn x = Some c
         \<and> conn_call k c t (a_write x) (a_inbound x) = Some (c', res) \<and> c_err c' = None \<longrightarrow>
         retry k t (pre @ x # post) = Some res)
   \<and> (\<forall>x c c' res e.
         a_conn x = Some c \<and> \<not> c_closed c \<and> a_write x = Written \<and> Inl e \<in> set (a_inbound x)
         \<and> conn_call k c t (a_write x) (a_inbound x) = Some (c', res) \<longrightarrow>
         lost k t x)"
proof (intro conjI allI impI)
  assume "retry k t xs = Some (Inl ErrNoAddrs)"
  then show "\<exists>pre x post. xs = pre @ x # post \<and> a_conn x = None \<and> (\<forall>y \<in> set pre. lost k t y)"
    by (rule retry_ErrNoAddrs)
next
  fix pre and x :: attempt and post
  assume "(\<forall>y \<in> set pre. lost k t y) \<and> a_conn x = None"
  then show "retry k t (pre @ x # post) = Some (Inl ErrNoAddrs)"
    by (simp add: retry_lost_prefix)
next
  fix x :: attempt assume "lost k t x"
  then show "retry k t (x # xs) = retry k t xs" by (rule retry_lost)
next
  fix pre and x :: attempt and post c c' res
  assume "(\<forall>y \<in> set pre. lost k t y) \<and> a_conn x = Some c
         \<and> conn_call k c t (a_write x) (a_inbound x) = Some (c', res) \<and> c_err c' = None"
  then show "retry k t (pre @ x # post) = Some res"
    by (simp add: retry_lost_prefix)
next
  fix x :: attempt and c c' res e
  assume a: "a_conn x = Some c \<and> \<not> c_closed c \<and> a_write x = Written \<and> Inl e \<in> set (a_inbound x)
         \<and> conn_call k c t (a_write x) (a_inbound x) = Some (c', res)"
  then have "c_err c' \<noteq> None"
    using conn_call_connection_lost [of k c t "a_write x" "a_inbound x" c' res e] by blast
  with a show "lost k t x" by (auto simp: lost_def)
qed

theorem C9_retry_witness:
  "lost codes0 (T_new GET) attempt_lost
   \<and> retry codes0 (T_new GET) [attempt_lost, attempt_lost, attempt_good]
       = Some (Inr (Some (frame 0 3)))
   \<and> retry codes0 (T_new GET) [attempt_lost, attempt_none] = Some (Inl ErrNoAddrs)"
proof -
  note ev = run_defs new_conn_def unused_tag_here
  have call1: "\<exists>c'. conn_call codes0 (new_conn ''10.0.0.1:8046'') (T_new GET) Written [Inl EOF]
                 = Some (c', Inl EOF)"
    by (simp add: ev)
  then obtain c1 where c1: "conn_call codes0 (new_conn ''10.0.0.1:8046'') (T_new GET)
                              (a_write attempt_lost) (a_inbound attempt_lost) = Some (c1, Inl EOF)"
    by (auto simp: attempt_lost_def)
  have l: "lost codes0 (T_new GET) attempt_lost"
    using C9_retry [of codes0 "T_new GET" "[]", THEN conjunct2, THEN conjunct2, THEN conjunct2,
        THEN conjunct2, rule_format, of attempt_lost "new_conn ''10.0.0.1:8046''" EOF c1 "Inl EOF"]
      c1
    by (simp add: attempt_lost_def new_conn_def)
  have call2: "\<exists>c'. conn_call codes0 (new_conn ''10.0.0.2:8046'') (T_new GET) Written
                       [Inr (frame 0 3)] = Some (c', Inr (Some (frame 0 3))) \<and> c_err c' = None"
    by (simp add: ev)
  then obtain c2 where c2: "conn_call codes0 (new_conn ''10.0.0.2:8046'') (T_new GET)
                              (a_write attempt_good) (a_inbound attempt_good)
                            = Some (c2, Inr (Some (frame 0 3)))" and e2: "c_err c2 = None"
    by (auto simp: attempt_good_def)
  have pre: "\<forall>y \<in> set [attempt_lost, attempt_lost]. lost codes0 (T_new GET) y" using l by simp
  have g: "a_conn attempt_good = Some (new_conn ''10.0.0.2:8046'')" by (simp add: attempt_good_def)
  have 2: "retry codes0 (T_new GET) ([attempt_lost, attempt_lost] @ attempt_good # [])
             = Some (Inr (Some (frame 0 3)))"
    using C9_retry [of codes0 "T_new GET" "[]", THEN conjunct2, THEN conjunct2, THEN conjunct2,
        THEN conjunct1, rule_format, of "[attempt_lost, attempt_lost]" attempt_good
          "new_conn ''10.0.0.2:8046''" c2 "Inr (Some (frame 0 3))" "[]"] pre g c2 e2
    by blast
  have n: "a_conn attempt_none = None" by (simp add: attempt_none_def)
  have 3: "retry codes0 (T_new GET) ([attempt_lost] @ attempt_none # []) = Some (Inl ErrNoAddrs)"
    using C9_retry [of codes0 "T_new GET" "[]", THEN conjunct2, THEN conjunct1, rule_format,
        of "[attempt_lost]" attempt_none "[]"] l n
    by simp
  show ?thesis using l 2 3 by simp
qed

section \<open>Torn-down connections\<close>

text \<open>
  In every run of whole calls from a fresh connection, a connection that has
  been closed has its sticky error set and its table empty: \<open>send\<close> stops at
  the error before it would store into the table that \<open>close\<close> has dropped,
  and \<open>cancel\<close> finds no entry.
\<close>

lemma torn_ok_readResponses: "torn_ok c \<Longrightarrow> torn_ok (readResponses k c inb)"
proof (induction inb arbitrary: c)
  case Nil
  then show ?case by simp
next
  case (Cons x inb)
  show ?case
  proof (cases x)
    case (Inl e)
    then show ?thesis by (simp add: torn_ok_def)
  next
    case (Inr r)
    have "torn_ok (rr_frame k c r)" using Cons.prems by (auto simp: torn_ok_def rr_frame_cb)
    with Cons.IH Inr show ?thesis by simp
  qed
qed

lemma torn_ok_reader: "torn_ok c \<Longrightarrow> torn_ok (reader k c inb)"
  by (simp add: reader_def torn_ok_readResponses)

lemma torn_ok_send:
  assumes "torn_ok c" and "send c t w = Some (c', t', res)"
  shows "torn_ok c'"
proof (cases "c_err c")
  case (Some e)
  with assms show ?thesis by (auto simp: send_def)
next
  case None
  with assms(1) have "\<not> c_closed c" by (auto simp: torn_ok_def)
  with send_cb_cases [OF assms(2)] assms(1) show ?thesis by (auto simp: torn_ok_def)
qed

lemma torn_ok_conn_call:
  assumes "torn_ok c" and "conn_call k c t w inb = Some (c', res)"
  shows "torn_ok c'"
proof -
  from assms(2) obtain c1 t1 r1 where s: "send c t w = Some (c1, t1, r1)"
    by (auto simp: conn_call_def split: option.splits)
  from torn_ok_send [OF assms(1) s] have ok1: "torn_ok c1" .
  show ?thesis
  proof (cases r1)
    case (Inl e)
    with assms(2) s ok1 show ?thesis by (simp add: conn_call_def)
  next
    case (Inr ch)
    with assms(2) s have "c' = reader k c1 inb"
      by (auto simp: conn_call_def Let_def split: option.splits)
    with ok1 show ?thesis by (simp add: torn_ok_reader)
  qed
qed

lemma torn_ok_cancel:
  assumes "torn_ok c" and "cancel k c tag cbp w inb = Some (c', res)"
  shows "torn_ok c'"
proof (cases "cancel_reserve c tag cbp")
  case (Inl e)
  with assms show ?thesis by (simp add: cancel_def)
next
  case (Inr c1)
  then have c1: "c1 = reserved c tag" and m: "map_of (c_cb c) tag = Some (Some cbp)"
    by (auto simp: cancel_reserve_def split: option.splits if_splits)
  from m assms(1) have "\<not> c_closed c" by (auto simp: torn_ok_def)
  then have ok1: "torn_ok c1" by (simp add: c1 torn_ok_def)
  from assms(2) Inr obtain c2 r2
    where call: "conn_call k c1 ((T_new CANCEL)\<lparr>T_OtherTag := Some tag\<rparr>) w inb = Some (c2, r2)"
    by (auto simp: cancel_def split: option.splits)
  from torn_ok_conn_call [OF ok1 call] have ok2: "torn_ok c2" .
  show ?thesis
  proof (cases r2)
    case (Inl e)
    with assms(2) Inr call ok2 show ?thesis by (simp add: cancel_def)
  next
    case Inr': (Inr rr)
    with assms(2) Inr call have "c' = emit [Close cbp] (released c2 tag)" by (simp add: cancel_def)
    with ok2 show ?thesis by (auto simp: torn_ok_def)
  qed
qed

lemma torn_ok_do_ops: "torn_ok c \<Longrightarrow> do_ops k c ops = Some c' \<Longrightarrow> torn_ok c'"
proof (induction ops arbitrary: c)
  case Nil
  then show ?case by simp
next
  case (Cons x ops)
  from Cons.prems(2) obtain c1 where x: "do_op k c x = Some c1" and rest: "do_ops k c1 ops = Some c'"
    by (auto split: option.splits)
  have "torn_ok c1"
  proof (cases x)
    case (DoSend t w)
    with x obtain t' res where "send c t w = Some (c1, t', res)" by auto
    from torn_ok_send [OF Cons.prems(1) this] show ?thesis .
  next
    case (DoRead inb)
    with x Cons.prems(1) show ?thesis by (auto simp: torn_ok_reader)
  next
    case (DoCancel tag cbp w inb)
    with x obtain res where "cancel k c tag cbp w inb = Some (c1, res)" by auto
    from torn_ok_cancel [OF Cons.prems(1) this] show ?thesis .
  qed
  from Cons.IH [OF this rest] show ?case .
qed

lemma torn_down_has_error:
  assumes "do_ops k (new_conn a) ops = Some c" and "c_closed c"
  shows "c_err c \<noteq> None \<and> c_cb c = []"
proof -
  have "torn_ok (new_conn a)" by (simp add: torn_ok_def new_conn_def)
  from torn_ok_do_ops [OF this assms(1)] assms(2) show ?thesis by (simp add: torn_ok_def)
qed

end
